theory Spec2Isabelle
  imports Complex_Main "HOL-Library.Signed_Division" "HOL-Library.Word"
begin

section \<open>The random SOCP generator of examples/c/randomSOCPProb.c\<close>

text \<open>
  The program reads a variable count \<open>n\<close>, two fractions \<open>p_f\<close>, \<open>p_l\<close> and a seed from
  its command line, derives the sizes of a \<open>3n \<times> n\<close> problem, splits the \<open>3n\<close> rows into
  a zero cone, a linear cone and a random sequence of second-order cones, and hands the
  result to the instance builder and the solver.  This theory embeds \<open>main\<close> phase by
  phase, in the order of the source lines, and proves the properties of the cone
  structure it builds.
\<close>

subsection \<open>Types of scs.h\<close>

text \<open>
  Modelled from the spec: the typedefs \<open>idxint\<close> and \<open>pfloat\<close> are declared in scs.h, which
  is not part of the sources at hand.  The spec speaks of integers and of floating-point
  fractions.  \<open>idxint\<close> is taken as the mathematical integers: the additions, subtractions
  and products of integers in \<open>main\<close> are exact.  \<open>pfloat\<close> is taken as \<open>double\<close>: a value of
  the type is a real number, and every operation on such values rounds its exact result
  to the nearest binary64 number (next subsection).
\<close>

type_synonym idxint = int
type_synonym pfloat = real

subsection \<open>Double arithmetic\<close>

text \<open>
  Rounding to the nearest integer, a tie going to the even one.
\<close>

definition round_even :: "real \<Rightarrow> int" where
  "round_even r =
     (let f = \<lfloor>r\<rfloor>; d = r - of_int f
      in if d < 1 / 2 then f else if 1 / 2 < d then f + 1 else if even f then f else f + 1)"

text \<open>
  The unit in the last place of a number \<open>x\<close> with \<open>2\<^sup>e \<le> |x| < 2\<^sup>e\<^sup>+\<^sup>1\<close> is \<open>2\<^sup>e\<^sup>-\<^sup>5\<^sup>2\<close>: a
  binary64 number has 53 significant bits.  \<open>double_round\<close> is the rounding of IEEE 754
  in its default mode, to the nearest multiple of that unit, ties to even.  The range of
  the exponent is not bounded: a result beyond the largest double (an infinity in C) is
  here a number beyond the range of every integer type, and results below the smallest
  normal number do not arise from a product with \<open>3n\<close> in a way that changes its floor.
\<close>

definition double_ulp :: "real \<Rightarrow> real" where
  "double_ulp x = 2 powr (of_int (\<lfloor>log 2 \<bar>x\<bar>\<rfloor> - 52))"

definition double_round :: "real \<Rightarrow> real" where
  "double_round x =
     (if x = 0 then 0 else of_int (round_even (x / double_ulp x)) * double_ulp x)"

text \<open>
  The operations \<open>main\<close> applies to doubles: the conversion of an integer, \<open>+\<close>, \<open>*\<close>, \<open>/\<close>,
  and \<open>sqrt\<close> and \<open>log\<close> of the C library, taken as correctly rounded.  Each operation
  rounds once, to a double (no intermediate result is kept in a wider format).  \<open>floor\<close>
  and \<open>ceil\<close> are exact on doubles.
\<close>

definition d_of_int :: "int \<Rightarrow> pfloat" where
  "d_of_int i = double_round (of_int i)"

definition d_add :: "pfloat \<Rightarrow> pfloat \<Rightarrow> pfloat" where
  "d_add x y = double_round (x + y)"

definition d_mul :: "pfloat \<Rightarrow> pfloat \<Rightarrow> pfloat" where
  "d_mul x y = double_round (x * y)"

definition d_div :: "pfloat \<Rightarrow> pfloat \<Rightarrow> pfloat" where
  "d_div x y = double_round (x / y)"

definition d_sqrt :: "pfloat \<Rightarrow> pfloat" where
  "d_sqrt x = double_round (sqrt x)"

definition d_log :: "pfloat \<Rightarrow> pfloat" where
  "d_log x = double_round (ln x)"

text \<open>
  The fields of \<open>Cone\<close> that \<open>main\<close> touches.  \<open>k->q\<close> is a pointer: \<open>None\<close> is \<open>NULL\<close>,
  \<open>Some buf\<close> a buffer whose cells are \<open>None\<close> as long as nothing was stored in them
  (\<open>malloc\<close> does not initialise).
\<close>

record Cone =
  cone_f :: idxint
  cone_l :: idxint
  cone_q :: "idxint option list option"
  cone_qsize :: idxint
  cone_s :: "idxint option list option"
  cone_ssize :: idxint
  cone_ep :: idxint
  cone_ed :: idxint

text \<open>\<open>scs_calloc(1, sizeof(Cone))\<close>: every field zero, every pointer \<open>NULL\<close>.\<close>

definition calloc_Cone :: Cone where
  "calloc_Cone = \<lparr>cone_f = 0, cone_l = 0, cone_q = None, cone_qsize = 0,
                   cone_s = None, cone_ssize = 0, cone_ep = 0, cone_ed = 0\<rparr>"

subsection \<open>The C library and the collaborators\<close>

text \<open>
  The functions of the C library that \<open>main\<close> calls are parameters of the model:
  \<open>atoi\<close>, which returns an \<open>int\<close> (32 bits), \<open>atof\<close>, the value of \<open>time(NULL)\<close> as it is
  assigned to \<open>seed\<close>, and the generator: \<open>rand_seq seed i\<close> is what the \<open>i\<close>-th call of
  \<open>rand()\<close> after \<open>srand(seed)\<close> returns, a number between \<open>0\<close> and \<open>RAND_MAX\<close> and so a
  natural number.  \<open>atof\<close> is taken to return a finite number: the infinities and the NaN
  that it returns for the strings spelling them are not values of the model.
\<close>

record libc =
  atoi :: "string \<Rightarrow> 32 word"
  atof :: "string \<Rightarrow> pfloat"
  time_now :: int
  rand_seq :: "int \<Rightarrow> nat \<Rightarrow> nat"

text \<open>What the program writes to standard output, one value per \<open>printf\<close> group.\<close>

datatype msg =
    PrintSeed int
  | PrintFractionError
  | PrintDims idxint idxint idxint idxint
  | PrintCone idxint idxint idxint idxint "idxint option list"
  | PrintCovered idxint idxint

text \<open>
  The calls into the collaborators: the instance builder with \<open>nnz\<close>, \<open>col_nnz\<close>, the sizes
  \<open>d->m\<close> and \<open>d->n\<close> and the cone it is handed, then the solver.  What the two do to the
  structures they receive is outside this model.
\<close>

datatype call =
    GenRandomProbData idxint idxint idxint idxint Cone
  | Scs

text \<open>
  What has no defined behaviour in C: the conversion to an integer of a NaN, of an
  infinity or of a number outside the range of the integer type, a remainder by zero, a
  store through \<open>NULL\<close> or outside the allocated buffer.
\<close>

datatype error = UndefinedConversion | DivisionByZero | InvalidStore

text \<open>
  \<open>(idxint) x\<close> for a double \<open>x\<close> whose value is the integer \<open>z\<close>.  Whatever the width of
  \<open>idxint\<close>, no integer type of C holds a value outside the 64-bit range; inside it the
  value is taken to be representable, as the results of the integer arithmetic are.
\<close>

definition to_idxint :: "int \<Rightarrow> error + idxint" where
  "to_idxint z = (if - (2 ^ 63) \<le> z \<and> z < 2 ^ 63 then Inr z else Inl UndefinedConversion)"

subsection \<open>The variables of main\<close>

text \<open>
  The locals assigned in the \<open>switch\<close> are plain fields; a local that is assigned later is
  \<open>None\<close> until its assignment is executed.  \<open>rand_calls\<close> counts the calls of \<open>rand()\<close>
  since \<open>srand\<close>.
\<close>

record state =
  v_n :: idxint
  v_p_f :: pfloat
  v_p_l :: pfloat
  v_seed :: int
  v_m :: "idxint option"
  v_col_nnz :: "idxint option"
  v_nnz :: "idxint option"
  v_max_q :: "idxint option"
  v_q_num_rows :: "idxint option"
  v_q_total :: "idxint option"
  v_k :: Cone
  rand_calls :: nat
  stdout :: "msg list"
  calls :: "call list"

subsection \<open>Lines 40--77: arguments, seed, allocation of the structures\<close>

text \<open>
  The \<open>switch (argc)\<close> with its fall-through cases; \<open>argv\<close> includes the program name, so
  \<open>argc = length argv\<close>.  \<open>None\<close> is the \<open>default\<close> branch.  The literals \<open>0.1\<close> and \<open>0.3\<close>
  of lines 41 and 42 stand for the doubles nearest to them.
\<close>

definition parse_args :: "libc \<Rightarrow> string list \<Rightarrow> (idxint \<times> pfloat \<times> pfloat \<times> int) option" where
  "parse_args lc argv =
     (let p_f = double_round 0.1; p_l = double_round 0.3; seed = time_now lc in
      if length argv = 5 then
        Some (sint (atoi lc (argv ! 1)), atof lc (argv ! 2), atof lc (argv ! 3),
              sint (atoi lc (argv ! 4)))
      else if length argv = 4 then
        Some (sint (atoi lc (argv ! 1)), atof lc (argv ! 2), atof lc (argv ! 3), seed)
      else if length argv = 2 then
        Some (sint (atoi lc (argv ! 1)), p_f, p_l, seed)
      else None)"

text \<open>The state after line 77: generator seeded, seed printed, \<open>k\<close> zeroed.\<close>

definition init_state :: "idxint \<Rightarrow> pfloat \<Rightarrow> pfloat \<Rightarrow> int \<Rightarrow> state" where
  "init_state n p_f p_l seed =
     \<lparr>v_n = n, v_p_f = p_f, v_p_l = p_l, v_seed = seed,
      v_m = None, v_col_nnz = None, v_nnz = None, v_max_q = None,
      v_q_num_rows = None, v_q_total = None,
      v_k = calloc_Cone, rand_calls = 0, stdout = [PrintSeed seed], calls = []\<rparr>"

subsection \<open>Lines 79--83: the sizes\<close>

text \<open>
  \<open>(int) ceil(sqrt(n))\<close>: for a negative \<open>n\<close> the square root is a NaN, whose conversion
  to an integer is undefined.  Otherwise the value lies between \<open>0\<close> and \<open>n + 1\<close>.
\<close>

definition col_nnz_of :: "idxint \<Rightarrow> error + idxint" where
  "col_nnz_of n = (if 0 \<le> n then Inr \<lceil>d_sqrt (d_of_int n)\<rceil> else Inl UndefinedConversion)"

text \<open>
  \<open>(idxint) ceil(3 * n / log(3 * n))\<close>: the integer \<open>3 * n\<close> is converted to a double twice,
  the logarithm of the one is taken and the other is divided by it.  For \<open>3n > 1\<close> the
  logarithm is positive and the quotient an ordinary positive number.  For \<open>3n = 0\<close> the
  logarithm is \<open>-\<infinity>\<close> and the quotient \<open>0 / -\<infinity>\<close> a zero, converted to \<open>0\<close>.  Otherwise the
  quotient is an infinity (\<open>3n = 1\<close>) or a NaN (\<open>3n < 0\<close>).
\<close>

definition max_q_of :: "idxint \<Rightarrow> error + idxint" where
  "max_q_of n =
     (if 1 < 3 * n then Inr \<lceil>d_div (d_of_int (3 * n)) (d_log (d_of_int (3 * n)))\<rceil>
      else if 3 * n = 0 then Inr 0
      else Inl UndefinedConversion)"

definition derive_sizes :: "state \<Rightarrow> error + state" where
  "derive_sizes s =
     (let n = v_n s;
          s = s\<lparr>v_m := Some (3 * n)\<rparr>
      in case col_nnz_of n of
           Inl e \<Rightarrow> Inl e
         | Inr col_nnz \<Rightarrow>
             (let s = s\<lparr>v_col_nnz := Some col_nnz\<rparr>;
                  s = s\<lparr>v_nnz := Some (n * col_nnz)\<rparr>
              in case max_q_of n of
                   Inl e \<Rightarrow> Inl e
                 | Inr max_q \<Rightarrow> Inr (s\<lparr>v_max_q := Some max_q\<rparr>)))"

subsection \<open>Lines 90--95: zero and linear rows, the block buffer\<close>

text \<open>
  \<open>scs_malloc(q_num_rows * sizeof(idxint))\<close>: a buffer of \<open>q_num_rows\<close> cells, none of them
  initialised (for a count of zero a buffer without cells); a negative count is a request
  beyond any memory and yields \<open>NULL\<close>.  A request for a count that is not negative is
  taken to succeed; the program does not test the pointer it receives.
\<close>

definition malloc_idxint :: "idxint \<Rightarrow> idxint option list option" where
  "malloc_idxint cnt = (if 0 \<le> cnt then Some (replicate (nat cnt) None) else None)"

text \<open>
  \<open>(idxint) floor(3 * n * p_f)\<close>: the integer \<open>3 * n\<close> is converted to a double and multiplied
  by the fraction; the floor of the rounded product is converted back.
\<close>

definition alloc_rows :: "state \<Rightarrow> error + state" where
  "alloc_rows s =
     (let n = v_n s
      in case to_idxint \<lfloor>d_mul (d_of_int (3 * n)) (v_p_f s)\<rfloor> of
           Inl e \<Rightarrow> Inl e
         | Inr kf \<Rightarrow>
             (case to_idxint \<lfloor>d_mul (d_of_int (3 * n)) (v_p_l s)\<rfloor> of
                Inl e \<Rightarrow> Inl e
              | Inr kl \<Rightarrow>
                  (let q_num_rows = 3 * n - kf - kl
                   in Inr (s\<lparr>v_k := (v_k s)\<lparr>cone_f := kf, cone_l := kl, cone_qsize := 0,
                                              cone_q := malloc_idxint q_num_rows\<rparr>,
                              v_q_num_rows := Some q_num_rows\<rparr>))))"

subsection \<open>Lines 97--107: the partition loop and the trailing block\<close>

text \<open>\<open>k->q[k->qsize] = v; k->qsize++\<close>.\<close>

definition push_q :: "Cone \<Rightarrow> idxint \<Rightarrow> error + Cone" where
  "push_q k v =
     (case cone_q k of
        None \<Rightarrow> Inl InvalidStore
      | Some buf \<Rightarrow>
          if 0 \<le> cone_qsize k \<and> cone_qsize k < int (length buf) then
            Inr (k\<lparr>cone_q := Some (buf[nat (cone_qsize k) := Some v]),
                   cone_qsize := cone_qsize k + 1\<rparr>)
          else Inl InvalidStore)"

text \<open>
  One iteration of the \<open>while\<close> loop on the variables it changes: \<open>q_num_rows\<close>, \<open>k\<close> and
  the position in the random sequence \<open>rnd\<close>.  \<open>%\<close> is C's truncating remainder.
\<close>

definition loop_body ::
  "(nat \<Rightarrow> nat) \<Rightarrow> idxint \<Rightarrow> idxint \<times> Cone \<times> nat \<Rightarrow> error + idxint \<times> Cone \<times> nat" where
  "loop_body rnd max_q st =
     (case st of (q_num_rows, k, c) \<Rightarrow>
        if max_q = 0 then Inl DivisionByZero
        else
          (let size = (int (rnd c) smod max_q) + 1
           in case push_q k size of
                Inl e \<Rightarrow> Inl e
              | Inr k' \<Rightarrow> Inr (q_num_rows - size, k', Suc c)))"

text \<open>The loop itself; a run that never leaves the loop has the value \<open>None\<close>.\<close>

partial_function (option) while_loop ::
  "(nat \<Rightarrow> nat) \<Rightarrow> idxint \<Rightarrow> idxint \<times> Cone \<times> nat \<Rightarrow> (error + idxint \<times> Cone \<times> nat) option" where
  "while_loop rnd max_q st =
     (if fst st > max_q then
        (case loop_body rnd max_q st of
           Inl e \<Rightarrow> Some (Inl e)
         | Inr st' \<Rightarrow> while_loop rnd max_q st')
      else Some (Inr st))"

text \<open>Lines 104--107.\<close>

definition trailing_block :: "idxint \<times> Cone \<times> nat \<Rightarrow> error + idxint \<times> Cone \<times> nat" where
  "trailing_block st =
     (case st of (q_num_rows, k, c) \<Rightarrow>
        if q_num_rows > 0 then
          (case push_q k q_num_rows of Inl e \<Rightarrow> Inl e | Inr k' \<Rightarrow> Inr (q_num_rows, k', c))
        else Inr st)"

text \<open>The entries \<open>k->q[0], ..., k->q[k->qsize - 1]\<close>, as the two \<open>for\<close> loops read them.\<close>

definition q_entries :: "Cone \<Rightarrow> idxint option list" where
  "q_entries k = (case cone_q k of None \<Rightarrow> [] | Some buf \<Rightarrow> take (nat (cone_qsize k)) buf)"

text \<open>Lines 109--112: \<open>q_total\<close> accumulates the entries from index \<open>0\<close> upwards.\<close>

definition q_total_of :: "Cone \<Rightarrow> idxint" where
  "q_total_of k = foldl (\<lambda>acc c. acc + the c) 0 (q_entries k)"

definition partition_rows :: "libc \<Rightarrow> state \<Rightarrow> (error + state) option" where
  "partition_rows lc s =
     (case while_loop (rand_seq lc (v_seed s)) (the (v_max_q s))
             (the (v_q_num_rows s), v_k s, rand_calls s) of
        None \<Rightarrow> None
      | Some (Inl e) \<Rightarrow> Some (Inl e)
      | Some (Inr st) \<Rightarrow>
          (case trailing_block st of
             Inl e \<Rightarrow> Some (Inl e)
           | Inr (q_num_rows, k, c) \<Rightarrow>
               Some (Inr (s\<lparr>v_q_num_rows := Some q_num_rows, v_k := k, rand_calls := c,
                            v_q_total := Some (q_total_of k)\<rparr>))))"

subsection \<open>Lines 114--152: report, builder, solver\<close>

text \<open>
  The remaining fields of \<open>k\<close>, the report on standard output (the figures that are printed
  as floating-point numbers are left out), and the two calls.  The state returned is the
  one the builder is called in.
\<close>

definition report_and_solve :: "state \<Rightarrow> state" where
  "report_and_solve s =
     (let k = (v_k s)\<lparr>cone_s := None, cone_ssize := 0, cone_ep := 0, cone_ed := 0\<rparr>;
          m = the (v_m s); n = v_n s; col_nnz = the (v_col_nnz s); nnz = the (v_nnz s);
          q_total = the (v_q_total s)
      in s\<lparr>v_k := k,
            stdout := stdout s @
              [PrintDims m n col_nnz nnz,
               PrintCone (cone_f k) (cone_l k) (cone_qsize k) q_total (q_entries k),
               PrintCovered (q_total + cone_f k + cone_l k) m],
            calls := calls s @ [GenRandomProbData nnz col_nnz m n k, Scs]\<rparr>)"

subsection \<open>main\<close>

text \<open>
  How a run ends: in the \<open>default\<close> branch of the \<open>switch\<close>, which prints the usage text
  and returns \<open>0\<close> before anything else is set up, or at one of the two later \<open>return\<close>
  statements, with a status and the variables as they are then.
\<close>

datatype outcome = Usage | Exit int state

text \<open>
  Lines 71--152.  The result of a run is \<open>None\<close> if it never returns and \<open>Inl\<close> if it meets
  undefined behaviour.
\<close>

definition main_body :: "libc \<Rightarrow> idxint \<Rightarrow> pfloat \<Rightarrow> pfloat \<Rightarrow> int \<Rightarrow> (error + outcome) option" where
  "main_body lc n p_f p_l seed =
     (case derive_sizes (init_state n p_f p_l seed) of
        Inl e \<Rightarrow> Some (Inl e)
      | Inr s \<Rightarrow>
          if d_add (v_p_f s) (v_p_l s) > 1.0 then
            Some (Inr (Exit 1 (s\<lparr>stdout := stdout s @ [PrintFractionError]\<rparr>)))
          else
            (case alloc_rows s of
               Inl e \<Rightarrow> Some (Inl e)
             | Inr s1 \<Rightarrow>
                 (case partition_rows lc s1 of
                    None \<Rightarrow> None
                  | Some (Inl e) \<Rightarrow> Some (Inl e)
                  | Some (Inr s') \<Rightarrow> Some (Inr (Exit 0 (report_and_solve s'))))))"

definition main :: "libc \<Rightarrow> string list \<Rightarrow> (error + outcome) option" where
  "main lc argv =
     (case parse_args lc argv of
        None \<Rightarrow> Some (Inr Usage)
      | Some (n, p_f, p_l, seed) \<Rightarrow> main_body lc n p_f p_l seed)"

subsection \<open>The Cone Partitioner of the spec\<close>

text \<open>
  The algorithm of the spec, section 4.2, in its words: while \<open>remaining > max_block\<close>, draw
  a size in \<open>[1, max_block]\<close>, append it and subtract it from \<open>remaining\<close>; when the loop
  exits, append \<open>remaining\<close> if it is positive.  The \<open>i\<close>-th draw is made from the \<open>i\<close>-th
  number \<open>draws i\<close> of the generator, reduced modulo \<open>max_block\<close>.  The spec assumes a
  positive \<open>max_block\<close>; with any other nothing is drawn here.
\<close>

function spec_partition :: "(nat \<Rightarrow> nat) \<Rightarrow> int \<Rightarrow> int \<Rightarrow> nat \<Rightarrow> int list" where
  "spec_partition draws max_block remaining i =
     (if 0 < max_block \<and> max_block < remaining then
        (let size = int (draws i) mod max_block + 1
         in size # spec_partition draws max_block (remaining - size) (Suc i))
      else if 0 < remaining then [remaining]
      else [])"
  by pat_completeness auto
termination
proof (relation "measure (\<lambda>(draws, max_block, remaining, i). nat (remaining - max_block))")
  show "wf (measure (\<lambda>(draws, max_block, remaining, i). nat (remaining - max_block)))" by simp
next
  fix draws :: "nat \<Rightarrow> nat" and max_block remaining :: int and i :: nat and size :: int
  assume a: "0 < max_block \<and> max_block < remaining" and s: "size = int (draws i) mod max_block + 1"
  have "0 \<le> int (draws i) mod max_block" using a by simp
  then have "nat (remaining - size - max_block) < nat (remaining - max_block)"
    using a s by linarith
  then show "((draws, max_block, remaining - size, Suc i), (draws, max_block, remaining, i))
               \<in> measure (\<lambda>(draws, max_block, remaining, i). nat (remaining - max_block))"
    by simp
qed

declare spec_partition.simps [simp del]

subsection \<open>A C library for the examples\<close>

text \<open>
  One instance of the library parameters, used where a statement is evaluated on concrete
  arguments: \<open>atoi\<close> on the strings that occur there (\<open>0\<close> on anything else, as for a string
  without digits), \<open>atof\<close> likewise, returning the double nearest to the decimal, a fixed
  clock and a linear congruential generator.
\<close>

definition example_libc :: libc where
  "example_libc =
     \<lparr>atoi = (\<lambda>s. if s = ''7'' then 7 else if s = ''10'' then 10
                   else if s = ''100'' then 100 else if s = ''-1'' then - 1 else 0),
      atof = (\<lambda>s. if s = ''0.1'' then double_round 0.1
                   else if s = ''0.2'' then double_round 0.2
                   else if s = ''0.3'' then double_round 0.3
                   else if s = ''0.5'' then double_round 0.5
                   else if s = ''0.7'' then double_round 0.7
                   else if s = ''0.50000000000000011'' then double_round 0.50000000000000011
                   else if s = ''9007199254740992'' then double_round 9007199254740992
                   else if s = ''-9007199254740991'' then double_round (- 9007199254740991)
                   else 0),
      time_now = 1700000000,
      rand_seq = (\<lambda>seed i. nat ((seed + 1103515245 * (int i + 1) + 12345) mod 2147483648))\<rparr>"

section \<open>Properties of the embedding\<close>

subsection \<open>Rounding to a double\<close>

lemma round_even_err: "\<bar>of_int (round_even r) - r\<bar> \<le> 1 / 2"
proof -
  have "of_int \<lfloor>r\<rfloor> \<le> r" "r < of_int \<lfloor>r\<rfloor> + 1" by linarith+
  then show ?thesis by (auto simp: round_even_def Let_def)
qed

lemma round_even_of_int: "round_even (of_int j) = j"
  by (simp add: round_even_def)

lemma round_even_le:
  assumes "r \<le> of_int k"
  shows "round_even r \<le> k"
proof (cases "r = of_int k")
  case True
  then show ?thesis by (simp add: round_even_of_int)
next
  case False
  then have "r < of_int k" using assms by simp
  then have "\<lfloor>r\<rfloor> < k" by (simp add: floor_less_iff)
  then have "\<lfloor>r\<rfloor> + 1 \<le> k" by simp
  moreover have "round_even r \<le> \<lfloor>r\<rfloor> + 1" by (simp add: round_even_def Let_def)
  ultimately show ?thesis by linarith
qed

lemma double_ulp_pos: "0 < double_ulp x"
  by (simp add: double_ulp_def)

lemma double_ulp_bounds:
  assumes "x \<noteq> 0"
  shows "double_ulp x * 2 ^ 52 \<le> \<bar>x\<bar>" and "\<bar>x\<bar> < double_ulp x * 2 ^ 53"
proof -
  define e where "e = \<lfloor>log 2 \<bar>x\<bar>\<rfloor>"
  have pos: "0 < \<bar>x\<bar>" using assms by simp
  have "of_int e \<le> log 2 \<bar>x\<bar>" unfolding e_def by linarith
  then have lo: "2 powr (of_int e) \<le> \<bar>x\<bar>" using pos by (simp add: le_log_iff)
  have "log 2 \<bar>x\<bar> < of_int e + 1" unfolding e_def by linarith
  then have hi: "\<bar>x\<bar> < 2 powr (of_int e + 1)" using pos by (simp add: log_less_iff)
  have u: "double_ulp x = 2 powr (of_int e - 52)" by (simp add: double_ulp_def e_def)
  have "double_ulp x * 2 ^ 52 = 2 powr (of_int e - 52) * 2 powr 52" unfolding u by simp
  also have "\<dots> = 2 powr ((of_int e - 52) + 52)" by (rule powr_add [symmetric])
  also have "\<dots> = 2 powr (of_int e)" by simp
  finally show "double_ulp x * 2 ^ 52 \<le> \<bar>x\<bar>" using lo by simp
  have "double_ulp x * 2 ^ 53 = 2 powr (of_int e - 52) * 2 powr 53" unfolding u by simp
  also have "\<dots> = 2 powr ((of_int e - 52) + 53)" by (rule powr_add [symmetric])
  also have "\<dots> = 2 powr (of_int e + 1)" by (simp add: add.commute)
  finally show "\<bar>x\<bar> < double_ulp x * 2 ^ 53" using hi by simp
qed

lemma double_round_err: "\<bar>double_round x - x\<bar> \<le> \<bar>x\<bar> / 2 ^ 53"
proof (cases "x = 0")
  case True
  then show ?thesis by (simp add: double_round_def)
next
  case False
  define u where "u = double_ulp x"
  have u: "0 < u" by (simp add: u_def double_ulp_pos)
  have "\<bar>of_int (round_even (x / u)) - x / u\<bar> \<le> 1 / 2" by (rule round_even_err)
  then have "\<bar>of_int (round_even (x / u)) - x / u\<bar> * u \<le> 1 / 2 * u"
    using u by (intro mult_right_mono) simp_all
  moreover have "\<bar>of_int (round_even (x / u)) - x / u\<bar> * u = \<bar>of_int (round_even (x / u)) * u - x\<bar>"
    using u by (simp add: abs_mult_pos left_diff_distrib)
  ultimately have "\<bar>double_round x - x\<bar> \<le> u / 2"
    using False by (simp add: double_round_def u_def)
  moreover have "u * 2 ^ 52 \<le> \<bar>x\<bar>" using double_ulp_bounds(1) [OF False] by (simp add: u_def)
  ultimately show ?thesis by (simp add: field_simps)
qed

lemma double_round_zero: "double_round 0 = 0"
  by (simp add: double_round_def)

lemma double_round_abs: "0 \<le> x \<Longrightarrow> \<bar>double_round x - x\<bar> \<le> x / 2 ^ 53"
  using double_round_err [of x] by simp

lemma double_round_lower: "0 \<le> x \<Longrightarrow> x - x / 2 ^ 53 \<le> double_round x"
  using double_round_abs [of x] by linarith

lemma double_round_upper: "0 \<le> x \<Longrightarrow> double_round x \<le> x + x / 2 ^ 53"
  using double_round_abs [of x] by linarith

lemma double_round_nonneg: "0 \<le> x \<Longrightarrow> 0 \<le> double_round x"
proof -
  assume x: "0 \<le> x"
  have "x / 2 ^ 53 \<le> x" using x by (simp add: field_simps)
  then show ?thesis using double_round_lower [OF x] by linarith
qed

lemma double_round_pos: "0 < x \<Longrightarrow> 0 < double_round x"
proof -
  assume x: "0 < x"
  have "x / 2 ^ 53 < x" using x by (simp add: field_simps)
  then show ?thesis using double_round_lower [of x] x by linarith
qed

lemma double_round_nonpos: "x \<le> 0 \<Longrightarrow> double_round x \<le> 0"
proof -
  assume x: "x \<le> 0"
  have "\<bar>double_round x - x\<bar> \<le> - x / 2 ^ 53" using double_round_err [of x] x by simp
  moreover have "- x / 2 ^ 53 \<le> - x" using x by (simp add: field_simps)
  ultimately show ?thesis by linarith
qed

text \<open>The unit in the last place inside a known binade.\<close>

lemma double_ulp_binade:
  assumes "2 powr (of_int e) \<le> \<bar>x\<bar>" and "\<bar>x\<bar> < 2 powr (of_int e + 1)"
  shows "double_ulp x = 2 powr (of_int e - 52)"
proof -
  have pos: "0 < \<bar>x\<bar>" using assms(1) powr_gt_zero [of 2 "of_int e"] by linarith
  have "of_int e \<le> log 2 \<bar>x\<bar>" using assms(1) pos by (simp add: le_log_iff)
  moreover have "log 2 \<bar>x\<bar> < of_int e + 1" using assms(2) pos by (simp add: log_less_iff)
  ultimately have "\<lfloor>log 2 \<bar>x\<bar>\<rfloor> = e" by linarith
  then show ?thesis by (simp add: double_ulp_def)
qed

lemma double_round_binade_up:
  assumes "2 ^ k \<le> \<bar>x\<bar>" and "\<bar>x\<bar> < 2 * 2 ^ k"
  shows "double_round x = of_int (round_even (x * 2 ^ 52 / 2 ^ k)) * 2 ^ k / 2 ^ 52"
proof -
  have a: "2 powr (of_int (int k)) \<le> \<bar>x\<bar>" using assms(1) by (simp add: powr_realpow)
  have "2 powr (of_int (int k) + 1) = 2 powr (real (Suc k))" by (simp add: add.commute)
  also have "\<dots> = 2 * 2 ^ k" by (subst powr_realpow) simp_all
  finally have b: "\<bar>x\<bar> < 2 powr (of_int (int k) + 1)" using assms(2) by simp
  have "double_ulp x = 2 powr (of_int (int k) - 52)" using a b by (rule double_ulp_binade)
  also have "\<dots> = 2 powr (of_int (int k)) * 2 powr (- 52)"
    by (simp add: powr_add [symmetric])
  also have "\<dots> = 2 ^ k / 2 ^ 52" by (simp add: powr_realpow powr_neg_numeral)
  finally have u: "double_ulp x = 2 ^ k / 2 ^ 52" .
  have "0 < (2::real) ^ k" by simp
  then have "0 < \<bar>x\<bar>" using assms(1) by linarith
  then have "x \<noteq> 0" by simp
  then show ?thesis by (simp add: double_round_def u)
qed

lemma double_round_binade_down:
  assumes "1 / 2 ^ k \<le> \<bar>x\<bar>" and "\<bar>x\<bar> < 2 / 2 ^ k"
  shows "double_round x = of_int (round_even (x * 2 ^ 52 * 2 ^ k)) / (2 ^ 52 * 2 ^ k)"
proof -
  have p: "(2::real) powr (of_int (- int k)) = 1 / 2 ^ k"
    by (simp add: powr_minus powr_realpow inverse_eq_divide)
  have a: "2 powr (of_int (- int k)) \<le> \<bar>x\<bar>" using assms(1) p by simp
  have "(2::real) powr (of_int (- int k) + 1) = 2 powr (of_int (- int k)) * 2 powr 1"
    by (rule powr_add)
  also have "\<dots> = 2 / 2 ^ k" using p by simp
  finally have b: "\<bar>x\<bar> < 2 powr (of_int (- int k) + 1)" using assms(2) by simp
  have "double_ulp x = 2 powr (of_int (- int k) - 52)" using a b by (rule double_ulp_binade)
  also have "\<dots> = 2 powr (of_int (- int k)) * 2 powr (- 52)"
    by (simp add: powr_add [symmetric])
  also have "\<dots> = 1 / (2 ^ 52 * 2 ^ k)" using p by (simp add: powr_neg_numeral)
  finally have u: "double_ulp x = 1 / (2 ^ 52 * 2 ^ k)" .
  have "0 < (1::real) / 2 ^ k" by simp
  then have "0 < \<bar>x\<bar>" using assms(1) by linarith
  then have "x \<noteq> 0" by simp
  then show ?thesis by (simp add: double_round_def u mult.assoc)
qed

lemma double_round_le_one:
  assumes "x \<le> 1"
  shows "double_round x \<le> 1"
proof -
  consider "x \<le> 0" | "0 < x" "x < 1" | "x = 1" using assms by linarith
  then show ?thesis
  proof cases
    case 1
    then show ?thesis using double_round_nonpos [of x] by linarith
  next
    case 2
    define u where "u = double_ulp x"
    have u: "0 < u" by (simp add: u_def double_ulp_pos)
    have x0: "x \<noteq> 0" using 2 by simp
    have lo: "u * 2 ^ 52 \<le> x" and hi: "x < u * 2 ^ 53"
      using double_ulp_bounds [OF x0] 2 by (simp_all add: u_def)
    have "x / u \<le> of_int (2 ^ 53)" using hi u by (simp add: field_simps)
    then have "round_even (x / u) \<le> 2 ^ 53" by (rule round_even_le)
    then have "real_of_int (round_even (x / u)) \<le> real_of_int (2 ^ 53)"
      by (simp only: of_int_le_iff)
    then have "real_of_int (round_even (x / u)) \<le> 2 ^ 53" by simp
    then have "of_int (round_even (x / u)) * u \<le> 2 ^ 53 * u"
      using u by (intro mult_right_mono) simp_all
    moreover have "u * 2 ^ 53 \<le> 1"
    proof -
      have "log 2 x < 0" using 2 by simp
      then have "\<lfloor>log 2 \<bar>x\<bar>\<rfloor> \<le> - 1" using 2 by (simp add: floor_le_iff)
      then have "real_of_int (\<lfloor>log 2 \<bar>x\<bar>\<rfloor> - 52) \<le> - 53" by linarith
      then have "u \<le> 2 powr (- 53)" unfolding u_def double_ulp_def
        by (intro powr_mono) simp_all
      then show ?thesis by (simp add: powr_neg_numeral field_simps)
    qed
    ultimately have "of_int (round_even (x / u)) * u \<le> 1" by (simp add: field_simps)
    then show ?thesis using x0 by (simp add: double_round_def u_def)
  next
    case 3
    have "double_round 1 = 1"
      using double_round_binade_up [of 0 1] by (simp add: round_even_def)
    then show ?thesis using 3 by simp
  qed
qed

lemma double_round_tenth: "double_round (1 / 10) = 3602879701896397 / 36028797018963968"
  using double_round_binade_down [of 4 "1 / 10"] by (simp add: round_even_def)

lemma double_round_3_tenths: "double_round (3 / 10) = 5404319552844595 / 18014398509481984"
  using double_round_binade_down [of 2 "3 / 10"] by (simp add: round_even_def)

lemma zero_rows_100: "\<lfloor>double_round (300 * double_round (1 / 10))\<rfloor> = 30"
  using double_round_binade_up [of 4 "300 * (3602879701896397 / 36028797018963968)"]
  by (simp add: double_round_tenth round_even_def)

lemma linear_rows_100: "\<lfloor>double_round (300 * double_round (3 / 10))\<rfloor> = 90"
  using double_round_binade_up [of 6 "300 * (5404319552844595 / 18014398509481984)"]
  by (simp add: double_round_3_tenths round_even_def)

lemma half_ulp_sum: "double_round ((1 / 2 + 1 / 2 ^ 53) + 1 / 2) = 1"
  using double_round_binade_up [of 0 "(1 / 2 + 1 / 2 ^ 53) + 1 / 2"]
  by (simp add: round_even_def)

lemma double_round_of_int:
  assumes "\<bar>k\<bar> \<le> 2 ^ 53"
  shows "double_round (of_int k) = of_int k"
proof (cases "k = 0")
  case True
  then show ?thesis by (simp add: double_round_def)
next
  case False
  define x where "x = real_of_int k"
  have x0: "x \<noteq> 0" using False by (simp add: x_def)
  define e where "e = \<lfloor>log 2 \<bar>x\<bar>\<rfloor>"
  have one: "1 \<le> \<bar>x\<bar>" using False by (simp add: x_def)
  have "0 \<le> log 2 \<bar>x\<bar>" using one by simp
  then have e0: "0 \<le> e" by (simp add: e_def)
  have "\<bar>x\<bar> \<le> 2 ^ 53" using assms unfolding x_def
    by (metis of_int_abs of_int_le_numeral_power_cancel_iff)
  then have "log 2 \<bar>x\<bar> \<le> 53" using one by (simp add: log_le_iff)
  then have e53: "e \<le> 53" by (simp add: e_def floor_le_iff)
  have u: "double_ulp x = 2 powr (of_int e - 52)" by (simp add: double_ulp_def e_def)
  show ?thesis
  proof (cases "e \<le> 52")
    case True
    define j where "j = nat (52 - e)"
    have "2 powr (of_int e - 52) = 2 powr (- real j)" using True by (simp add: j_def)
    also have "\<dots> = 1 / 2 ^ j" by (simp add: powr_minus powr_realpow inverse_eq_divide)
    finally have u': "double_ulp x = 1 / 2 ^ j" using u by simp
    have "x / double_ulp x = of_int (k * 2 ^ j)" unfolding u' by (simp add: x_def)
    then have "round_even (x / double_ulp x) = k * 2 ^ j" by (simp only: round_even_of_int)
    then have "double_round x = of_int (k * 2 ^ j) * (1 / 2 ^ j)"
      using x0 by (simp add: double_round_def u')
    then show ?thesis by (simp add: x_def)
  next
    case False
    then have e: "e = 53" using e53 by simp
    have "of_int e \<le> log 2 \<bar>x\<bar>" unfolding e_def by linarith
    then have "2 ^ 53 \<le> \<bar>x\<bar>" using one e by (simp add: le_log_iff)
    then have ax: "\<bar>x\<bar> = 2 ^ 53" using \<open>\<bar>x\<bar> \<le> 2 ^ 53\<close> by simp
    have u': "double_ulp x = 2" using u e by simp
    have "x = 2 ^ 53 \<or> x = - (2 ^ 53)" using ax by (simp add: abs_if split: if_splits) 
    then have "double_round x = x" using x0 unfolding double_round_def u'
      by (auto simp: round_even_def)
    then show ?thesis by (simp add: x_def)
  qed
qed

subsection \<open>The loop\<close>

lemma smod_nonneg_pos: "0 \<le> a \<Longrightarrow> 0 < b \<Longrightarrow> (a::int) smod b = a mod b"
  by (cases "a = 0") (simp_all add: signed_modulo_int_def)

lemma smod_nonneg: "0 \<le> a \<Longrightarrow> 0 \<le> (a::int) smod b"
  by (cases "b = 0") (simp_all add: signed_modulo_int_def sgn_if)

lemma draw_bounds:
  assumes "1 \<le> mq"
  shows "1 \<le> int x smod mq + 1 \<and> int x smod mq + 1 \<le> mq"
proof -
  have pos: "0 < mq" using assms by simp
  have "int x mod mq < mq" using pos by (rule pos_mod_bound)
  moreover have "0 \<le> int x mod mq" using pos by (rule pos_mod_sign)
  moreover have "int x smod mq = int x mod mq" using pos by (simp add: smod_nonneg_pos)
  ultimately show ?thesis by linarith
qed

lemma push_q_ok:
  assumes "cone_q k = Some buf" "0 \<le> cone_qsize k" "cone_qsize k < int (length buf)"
  shows "push_q k v = Inr (k\<lparr>cone_q := Some (buf[nat (cone_qsize k) := Some v]),
                              cone_qsize := cone_qsize k + 1\<rparr>)"
  using assms by (simp add: push_q_def)

lemma q_entries_push:
  assumes "cone_q k = Some buf" "0 \<le> cone_qsize k" "cone_qsize k < int (length buf)"
  shows "q_entries (k\<lparr>cone_q := Some (buf[nat (cone_qsize k) := Some v]),
                              cone_qsize := cone_qsize k + 1\<rparr>) = q_entries k @ [Some v]"
proof -
  have n: "nat (cone_qsize k) < length buf" using assms by linarith
  have "nat (cone_qsize k + 1) = Suc (nat (cone_qsize k))" using assms by linarith
  then show ?thesis using assms n
    by (simp add: q_entries_def take_Suc_conv_app_nth)
qed

lemma foldl_q_total: "foldl (\<lambda>acc c. acc + the c) a (map Some xs) = a + sum_list xs"
  by (induction xs arbitrary: a) (simp_all add: algebra_simps)

text \<open>The loop returns from every state: each iteration lowers \<open>q_num_rows\<close>.\<close>

lemma loop_body_decreases:
  assumes "loop_body rnd mq (r, k, c) = Inr (r', k', c')"
  shows "r' \<le> r - 1 \<and> c' = Suc c"
proof -
  have "0 \<le> int (rnd c) smod mq" by (rule smod_nonneg) simp
  then show ?thesis using assms
    by (auto simp: loop_body_def Let_def split: if_splits sum.splits)
qed

lemma while_loop_total: "\<exists>res. while_loop rnd mq st = Some res"
proof (induction "nat (fst st - mq)" arbitrary: st rule: less_induct)
  case less
  obtain r k c where st: "st = (r, k, c)" by (cases st)
  show ?case
  proof (cases "mq < r")
    case False
    then show ?thesis unfolding st by (subst while_loop.simps) simp
  next
    case True
    show ?thesis
    proof (cases "loop_body rnd mq (r, k, c)")
      case (Inl e)
      then show ?thesis unfolding st using True by (subst while_loop.simps) simp
    next
      case (Inr st')
      obtain r' k' c' where st': "st' = (r', k', c')" by (cases st')
      have "r' \<le> r - 1" using loop_body_decreases Inr st' by blast
      then have "nat (fst st' - mq) < nat (fst st - mq)" using True st st' by simp
      then obtain res where "while_loop rnd mq st' = Some res" using less.hyps by blast
      then show ?thesis unfolding st using True Inr by (subst while_loop.simps) simp
    qed
  qed
qed

subsection \<open>The partitioner of the spec\<close>

lemma spec_partition_nonpos:
  assumes "remaining \<le> 0"
  shows "spec_partition draws max_block remaining i = []"
proof -
  have "\<not> (0 < max_block \<and> max_block < remaining)" using assms by linarith
  then show ?thesis using assms by (subst spec_partition.simps) (simp only: if_False, simp)
qed

lemma spec_partition_bounds:
  assumes "1 \<le> max_block"
  shows "\<forall>b\<in>set (spec_partition draws max_block remaining i). 1 \<le> b \<and> b \<le> max_block"
  using assms
proof (induction draws max_block remaining i rule: spec_partition.induct)
  case (1 draws max_block remaining i)
  have pos: "0 < max_block" using "1.prems" by simp
  show ?case
  proof (cases "max_block < remaining")
    case True
    define size where "size = int (draws i) mod max_block + 1"
    have sz: "1 \<le> size \<and> size \<le> max_block"
      using pos_mod_sign [OF pos, of "int (draws i)"] pos_mod_bound [OF pos, of "int (draws i)"]
      by (simp add: size_def)
    have "\<forall>b\<in>set (spec_partition draws max_block (remaining - size) (Suc i)).
            1 \<le> b \<and> b \<le> max_block"
      using "1.IH" [OF _ size_def] pos True "1.prems" by simp
    moreover have "spec_partition draws max_block remaining i =
                     size # spec_partition draws max_block (remaining - size) (Suc i)"
      using pos True by (subst spec_partition.simps) (simp add: size_def Let_def)
    ultimately show ?thesis using sz by simp
  next
    case False
    then show ?thesis using pos by (subst spec_partition.simps) simp
  qed
qed

lemma spec_partition_sum:
  assumes "1 \<le> max_block" and "0 \<le> remaining"
  shows "sum_list (spec_partition draws max_block remaining i) = remaining"
  using assms
proof (induction draws max_block remaining i rule: spec_partition.induct)
  case (1 draws max_block remaining i)
  have pos: "0 < max_block" using "1.prems" by simp
  show ?case
  proof (cases "max_block < remaining")
    case True
    define size where "size = int (draws i) mod max_block + 1"
    have sz: "1 \<le> size \<and> size \<le> max_block"
      using pos_mod_sign [OF pos, of "int (draws i)"] pos_mod_bound [OF pos, of "int (draws i)"]
      by (simp add: size_def)
    have "0 \<le> remaining - size" using sz True by linarith
    then have "sum_list (spec_partition draws max_block (remaining - size) (Suc i)) = remaining - size"
      using "1.IH" [OF _ size_def] pos True "1.prems" by simp
    moreover have "spec_partition draws max_block remaining i =
                     size # spec_partition draws max_block (remaining - size) (Suc i)"
      using pos True by (subst spec_partition.simps) (simp add: size_def Let_def)
    ultimately show ?thesis by simp
  next
    case False
    then show ?thesis using pos "1.prems" by (subst spec_partition.simps) simp
  qed
qed



subsection \<open>The loop and the trailing block compute the partitioner of the spec\<close>

lemma partition_refines:
  assumes mq: "1 \<le> mq"
    and buf: "cone_q k = Some buf"
    and qs: "0 \<le> cone_qsize k"
    and r: "0 \<le> r"
    and cap: "cone_qsize k + r \<le> int (length buf)"
  shows "\<exists>st r' buf' c'.
           while_loop rnd mq (r, k, c) = Some (Inr st) \<and>
           trailing_block st =
             Inr (r', k\<lparr>cone_q := Some buf',
                        cone_qsize := cone_qsize k + int (length (spec_partition rnd mq r c))\<rparr>, c') \<and>
           length buf' = length buf \<and>
           q_entries (k\<lparr>cone_q := Some buf',
                        cone_qsize := cone_qsize k + int (length (spec_partition rnd mq r c))\<rparr>) =
             q_entries k @ map Some (spec_partition rnd mq r c)"
  using buf qs r cap
proof (induction "nat (r - mq)" arbitrary: r k c buf rule: less_induct)
  case less
  have pos: "0 < mq" using mq by simp
  show ?case
  proof (cases "mq < r")
    case False
    have w: "while_loop rnd mq (r, k, c) = Some (Inr (r, k, c))"
      using False by (subst while_loop.simps) simp
    show ?thesis
    proof (cases "0 < r")
      case True
      have sp: "spec_partition rnd mq r c = [r]"
        using False True by (subst spec_partition.simps) simp
      have inb: "cone_qsize k < int (length buf)" using True less.prems by linarith
      have tb: "trailing_block (r, k, c) =
                  Inr (r, k\<lparr>cone_q := Some (buf[nat (cone_qsize k) := Some r]),
                             cone_qsize := cone_qsize k + 1\<rparr>, c)"
        using True push_q_ok [OF less.prems(1) less.prems(2) inb, of r]
        by (simp add: trailing_block_def)
      show ?thesis
        using w tb q_entries_push [OF less.prems(1) less.prems(2) inb, of r]
        by (intro exI [of _ "(r, k, c)"] exI [of _ r]
                  exI [of _ "buf[nat (cone_qsize k) := Some r]"] exI [of _ c])
           (simp add: sp)
    next
      case False
      then have r0: "r \<le> 0" by simp
      have sp: "spec_partition rnd mq r c = []" using r0 by (rule spec_partition_nonpos)
      have tb: "trailing_block (r, k, c) = Inr (r, k, c)"
        using r0 by (simp add: trailing_block_def)
      have keq: "k\<lparr>cone_q := Some buf\<rparr> = k" using less.prems(1) by simp
      show ?thesis
        using w tb keq
        by (intro exI [of _ "(r, k, c)"] exI [of _ r] exI [of _ buf] exI [of _ c])
           (simp add: sp)
    qed
  next
    case True
    define size where "size = int (rnd c) mod mq + 1"
    have sm: "int (rnd c) smod mq = int (rnd c) mod mq" using pos by (simp add: smod_nonneg_pos)
    have sz: "1 \<le> size" "size \<le> mq"
      using pos_mod_sign [OF pos, of "int (rnd c)"] pos_mod_bound [OF pos, of "int (rnd c)"]
      by (simp_all add: size_def)
    have inb: "cone_qsize k < int (length buf)" using True mq less.prems by linarith
    define k1 where "k1 = k\<lparr>cone_q := Some (buf[nat (cone_qsize k) := Some size]),
                              cone_qsize := cone_qsize k + 1\<rparr>"
    have body: "loop_body rnd mq (r, k, c) = Inr (r - size, k1, Suc c)"
      using mq push_q_ok [OF less.prems(1) less.prems(2) inb, of size]
      by (simp add: loop_body_def size_def k1_def Let_def sm)
    have step: "while_loop rnd mq (r, k, c) = while_loop rnd mq (r - size, k1, Suc c)"
      using True body by (subst while_loop.simps) simp
    have sp: "spec_partition rnd mq r c = size # spec_partition rnd mq (r - size) (Suc c)"
      using pos True by (subst spec_partition.simps) (simp add: size_def Let_def)
    define bs where "bs = spec_partition rnd mq (r - size) (Suc c)"
    have e1: "q_entries k1 = q_entries k @ [Some size]"
      unfolding k1_def using less.prems(1) less.prems(2) inb by (rule q_entries_push)
    have k1q: "cone_q k1 = Some (buf[nat (cone_qsize k) := Some size])"
      and k1s: "cone_qsize k1 = cone_qsize k + 1" by (simp_all add: k1_def)
    have m: "nat (r - size - mq) < nat (r - mq)" using True sz by linarith
    have "\<exists>st r' buf' c'.
           while_loop rnd mq (r - size, k1, Suc c) = Some (Inr st) \<and>
           trailing_block st =
             Inr (r', k1\<lparr>cone_q := Some buf',
                        cone_qsize := cone_qsize k1 +
                          int (length (spec_partition rnd mq (r - size) (Suc c)))\<rparr>, c') \<and>
           length buf' = length (buf[nat (cone_qsize k) := Some size]) \<and>
           q_entries (k1\<lparr>cone_q := Some buf',
                        cone_qsize := cone_qsize k1 +
                          int (length (spec_partition rnd mq (r - size) (Suc c)))\<rparr>) =
             q_entries k1 @ map Some (spec_partition rnd mq (r - size) (Suc c))"
    proof (rule less.hyps [OF m k1q])
      show "0 \<le> cone_qsize k1" using less.prems k1s by simp
      show "0 \<le> r - size" using True sz by linarith
      show "cone_qsize k1 + (r - size) \<le> int (length (buf[nat (cone_qsize k) := Some size]))"
        using less.prems k1s sz by simp
    qed
    then obtain st r' buf' c' where
      run: "while_loop rnd mq (r - size, k1, Suc c) = Some (Inr st)"
      and tb: "trailing_block st =
             Inr (r', k1\<lparr>cone_q := Some buf', cone_qsize := cone_qsize k1 + int (length bs)\<rparr>, c')"
      and len: "length buf' = length buf"
      and ent: "q_entries (k1\<lparr>cone_q := Some buf', cone_qsize := cone_qsize k1 + int (length bs)\<rparr>) =
             q_entries k1 @ map Some bs"
      unfolding bs_def by auto
    have keq: "k1\<lparr>cone_q := Some buf', cone_qsize := cone_qsize k1 + int (length bs)\<rparr> =
               k\<lparr>cone_q := Some buf', cone_qsize := cone_qsize k + int (length (size # bs))\<rparr>"
      by (simp add: k1_def)
    show ?thesis
      unfolding sp bs_def [symmetric]
    proof (intro exI [of _ st] exI [of _ r'] exI [of _ buf'] exI [of _ c'] conjI)
      show "while_loop rnd mq (r, k, c) = Some (Inr st)" using step run by simp
      show "trailing_block st =
              Inr (r', k\<lparr>cone_q := Some buf', cone_qsize := cone_qsize k + int (length (size # bs))\<rparr>, c')"
        using tb keq by simp
      show "length buf' = length buf" by (rule len)
      show "q_entries (k\<lparr>cone_q := Some buf', cone_qsize := cone_qsize k + int (length (size # bs))\<rparr>) =
            q_entries k @ map Some (size # bs)"
        using ent e1 keq by simp
    qed
  qed
qed

text \<open>Nothing is stored when \<open>q_num_rows\<close> is neither above \<open>max_q\<close> nor positive.\<close>

lemma partition_idle:
  assumes "r \<le> mq" and "r \<le> 0"
  shows "while_loop rnd mq (r, k, c) = Some (Inr (r, k, c))"
    and "trailing_block (r, k, c) = Inr (r, k, c)"
    and "spec_partition rnd mq r c = []"
proof -
  show "while_loop rnd mq (r, k, c) = Some (Inr (r, k, c))"
    using assms(1) by (subst while_loop.simps) simp
  show "trailing_block (r, k, c) = Inr (r, k, c)" using assms(2) by (simp add: trailing_block_def)
  show "spec_partition rnd mq r c = []" using assms(2) by (rule spec_partition_nonpos)
qed

lemma partition_run:
  assumes mq: "0 \<le> mq" "0 < r \<longrightarrow> 1 \<le> mq"
    and kq: "cone_q k = malloc_idxint r" and ks: "cone_qsize k = 0"
  shows "\<exists>st r' cq' c'.
           while_loop rnd mq (r, k, c) = Some (Inr st) \<and>
           trailing_block st =
             Inr (r', k\<lparr>cone_q := cq', cone_qsize := int (length (spec_partition rnd mq r c))\<rparr>, c') \<and>
           q_entries (k\<lparr>cone_q := cq', cone_qsize := int (length (spec_partition rnd mq r c))\<rparr>) =
             map Some (spec_partition rnd mq r c) \<and>
           (0 \<le> r \<longrightarrow> (\<exists>buf. cq' = Some buf \<and> int (length buf) = r)) \<and>
           (r < 0 \<longrightarrow> cq' = None)"
proof (cases "0 < r")
  case True
  have m1: "1 \<le> mq" using mq True by simp
  have r0: "0 \<le> r" using True by simp
  have buf: "cone_q k = Some (replicate (nat r) None)" using kq r0 by (simp add: malloc_idxint_def)
  have qs: "0 \<le> cone_qsize k" using ks by simp
  have cap: "cone_qsize k + r \<le> int (length (replicate (nat r) (None::idxint option)))"
    using ks r0 by simp
  have e0: "q_entries k = []" using buf ks by (simp add: q_entries_def)
  from partition_refines [OF m1 buf qs r0 cap, of rnd c]
  obtain st r' buf' c' where
    "while_loop rnd mq (r, k, c) = Some (Inr st)"
    "trailing_block st =
       Inr (r', k\<lparr>cone_q := Some buf',
                  cone_qsize := int (length (spec_partition rnd mq r c))\<rparr>, c')"
    "length buf' = nat r"
    "q_entries (k\<lparr>cone_q := Some buf',
                  cone_qsize := int (length (spec_partition rnd mq r c))\<rparr>) =
       map Some (spec_partition rnd mq r c)"
    using ks e0 by auto
  then show ?thesis using r0
    by (intro exI [of _ st] exI [of _ r'] exI [of _ "Some buf'"] exI [of _ c']) simp
next
  case False
  then have r0: "r \<le> 0" by simp
  have rm: "r \<le> mq" using r0 mq by simp
  have keq: "k\<lparr>cone_q := cone_q k, cone_qsize := 0\<rparr> = k" using ks by simp
  have ent: "q_entries k = []" using ks by (simp add: q_entries_def split: option.splits)
  show ?thesis
    using partition_idle [OF rm r0] keq ent kq r0
    by (intro exI [of _ "(r, k, c)"] exI [of _ r] exI [of _ "cone_q k"] exI [of _ c])
       (auto simp: malloc_idxint_def)
qed

subsection \<open>The sizes\<close>

lemma d_of_int_small: "\<bar>i\<bar> \<le> 2 ^ 53 \<Longrightarrow> d_of_int i = of_int i"
  by (simp add: d_of_int_def double_round_of_int)

lemma d_of_int_zero: "d_of_int 0 = 0"
  by (simp add: d_of_int_def double_round_zero)

lemma max_q_of_pos:
  assumes "0 < n"
  shows "max_q_of n = Inr \<lceil>d_div (d_of_int (3 * n)) (d_log (d_of_int (3 * n)))\<rceil>"
    and "1 \<le> \<lceil>d_div (d_of_int (3 * n)) (d_log (d_of_int (3 * n)))\<rceil>"
proof -
  define N where "N = real_of_int (3 * n)"
  have N3: "3 \<le> N" using assms by (simp add: N_def)
  have "N - N / 2 ^ 53 \<le> double_round N" using N3 by (intro double_round_lower) simp
  moreover have "1 < N - N / 2 ^ 53" using N3 by (simp add: field_simps)
  ultimately have big: "1 < d_of_int (3 * n)" by (simp add: d_of_int_def N_def)
  then have "0 < ln (d_of_int (3 * n))" by (rule ln_gt_zero)
  then have L: "0 < d_log (d_of_int (3 * n))" unfolding d_log_def by (rule double_round_pos)
  have "0 < d_of_int (3 * n) / d_log (d_of_int (3 * n))" using big L by simp
  then have "0 < d_div (d_of_int (3 * n)) (d_log (d_of_int (3 * n)))"
    unfolding d_div_def by (rule double_round_pos)
  then show "1 \<le> \<lceil>d_div (d_of_int (3 * n)) (d_log (d_of_int (3 * n)))\<rceil>"
    by (simp only: one_le_ceiling)
  show "max_q_of n = Inr \<lceil>d_div (d_of_int (3 * n)) (d_log (d_of_int (3 * n)))\<rceil>"
    using assms by (simp add: max_q_of_def)
qed

lemma max_q_of_nonneg:
  assumes "0 \<le> n"
  shows "\<exists>mq. max_q_of n = Inr mq \<and> 0 \<le> mq \<and> (0 < n \<longrightarrow> 1 \<le> mq)"
proof (cases "n = 0")
  case True
  then show ?thesis by (simp add: max_q_of_def)
next
  case False
  then have "0 < n" using assms by simp
  then show ?thesis using max_q_of_pos [of n] by auto
qed

lemma derive_sizes_nonneg:
  assumes "0 \<le> n" "max_q_of n = Inr mq"
  shows "derive_sizes (init_state n p_f p_l seed) =
           Inr ((init_state n p_f p_l seed)
                  \<lparr>v_m := Some (3 * n), v_col_nnz := Some \<lceil>d_sqrt (d_of_int n)\<rceil>,
                   v_nnz := Some (n * \<lceil>d_sqrt (d_of_int n)\<rceil>), v_max_q := Some mq\<rparr>)"
  using assms by (simp add: derive_sizes_def col_nnz_of_def init_state_def Let_def)

lemma derive_sizes_negative:
  assumes "n < 0"
  shows "derive_sizes (init_state n p_f p_l seed) = Inl UndefinedConversion"
  using assms by (simp add: derive_sizes_def col_nnz_of_def init_state_def Let_def)

subsection \<open>A run that passes the check\<close>

lemma main_body_run:
  assumes n: "0 \<le> n"
    and chk: "\<not> 1 < d_add p_f p_l"
    and mq: "max_q_of n = Inr mq"
    and kf: "to_idxint \<lfloor>d_mul (d_of_int (3 * n)) p_f\<rfloor> = Inr kf"
    and kl: "to_idxint \<lfloor>d_mul (d_of_int (3 * n)) p_l\<rfloor> = Inr kl"
    and ok: "0 \<le> mq" "0 < 3 * n - kf - kl \<longrightarrow> 1 \<le> mq"
  shows "\<exists>s. main_body lc n p_f p_l seed = Some (Inr (Exit 0 s)) \<and>
           v_n s = n \<and> v_m s = Some (3 * n) \<and> v_max_q s = Some mq \<and>
           cone_f (v_k s) = kf \<and> cone_l (v_k s) = kl \<and>
           cone_qsize (v_k s) =
             int (length (spec_partition (rand_seq lc seed) mq (3 * n - kf - kl) 0)) \<and>
           q_entries (v_k s) =
             map Some (spec_partition (rand_seq lc seed) mq (3 * n - kf - kl) 0) \<and>
           v_q_total s = Some (sum_list (spec_partition (rand_seq lc seed) mq (3 * n - kf - kl) 0)) \<and>
           (0 \<le> 3 * n - kf - kl \<longrightarrow>
              (\<exists>buf. cone_q (v_k s) = Some buf \<and> int (length buf) = 3 * n - kf - kl)) \<and>
           (3 * n - kf - kl < 0 \<longrightarrow> cone_q (v_k s) = None) \<and>
           calls s = [GenRandomProbData (n * \<lceil>d_sqrt (d_of_int n)\<rceil>) \<lceil>d_sqrt (d_of_int n)\<rceil>
                        (3 * n) n (v_k s), Scs]"
proof -
  define r0 where "r0 = 3 * n - kf - kl"
  define bs where "bs = spec_partition (rand_seq lc seed) mq r0 0"
  define s1 where "s1 = (init_state n p_f p_l seed)
                  \<lparr>v_m := Some (3 * n), v_col_nnz := Some \<lceil>d_sqrt (d_of_int n)\<rceil>,
                   v_nnz := Some (n * \<lceil>d_sqrt (d_of_int n)\<rceil>), v_max_q := Some mq\<rparr>"
  define k0 where "k0 = calloc_Cone\<lparr>cone_f := kf, cone_l := kl, cone_qsize := 0,
                            cone_q := malloc_idxint r0\<rparr>"
  define s2 where "s2 = s1\<lparr>v_k := k0, v_q_num_rows := Some r0\<rparr>"
  have d: "derive_sizes (init_state n p_f p_l seed) = Inr s1"
    using derive_sizes_nonneg [OF n mq, of p_f p_l seed] by (simp add: s1_def)
  have c: "\<not> 1 < d_add (v_p_f s1) (v_p_l s1)" using chk by (simp add: s1_def init_state_def)
  have a: "alloc_rows s1 = Inr s2"
    using kf kl
    by (simp add: alloc_rows_def s2_def s1_def k0_def init_state_def Let_def r0_def)
  have k0q: "cone_q k0 = malloc_idxint r0" and k0s: "cone_qsize k0 = 0"
    by (simp_all add: k0_def)
  have ok': "0 < r0 \<longrightarrow> 1 \<le> mq" using ok(2) by (simp add: r0_def)
  from partition_run [OF ok(1) ok' k0q k0s, of "rand_seq lc seed" 0]
  obtain st r' cq' c' where
    run: "while_loop (rand_seq lc seed) mq (r0, k0, 0) = Some (Inr st)"
    and tb: "trailing_block st = Inr (r', k0\<lparr>cone_q := cq', cone_qsize := int (length bs)\<rparr>, c')"
    and ent: "q_entries (k0\<lparr>cone_q := cq', cone_qsize := int (length bs)\<rparr>) = map Some bs"
    and cq: "0 \<le> r0 \<longrightarrow> (\<exists>buf. cq' = Some buf \<and> int (length buf) = r0)" "r0 < 0 \<longrightarrow> cq' = None"
    unfolding bs_def by blast
  define k1 where "k1 = k0\<lparr>cone_q := cq', cone_qsize := int (length bs)\<rparr>"
  define s3 where "s3 = s2\<lparr>v_q_num_rows := Some r', v_k := k1, rand_calls := c',
                            v_q_total := Some (q_total_of k1)\<rparr>"
  have qt: "q_total_of k1 = sum_list bs"
    using ent by (simp add: q_total_of_def k1_def foldl_q_total)
  have pr: "partition_rows lc s2 = Some (Inr s3)"
    using run tb
    by (simp add: partition_rows_def s2_def s1_def init_state_def s3_def k1_def)
  have mb: "main_body lc n p_f p_l seed = Some (Inr (Exit 0 (report_and_solve s3)))"
    using d c a pr by (simp add: main_body_def)
  define k2 where "k2 = k1\<lparr>cone_s := None, cone_ssize := 0, cone_ep := 0, cone_ed := 0\<rparr>"
  have vk: "v_k (report_and_solve s3) = k2"
    by (simp add: report_and_solve_def Let_def s3_def k2_def)
  have ent2: "q_entries k2 = map Some bs"
    using ent by (cases cq') (simp_all add: k2_def k1_def q_entries_def)
  show ?thesis
    unfolding r0_def [symmetric] bs_def [symmetric]
  proof (intro exI [of _ "report_and_solve s3"] conjI)
    show "main_body lc n p_f p_l seed = Some (Inr (Exit 0 (report_and_solve s3)))" by (rule mb)
    show "v_n (report_and_solve s3) = n"
      by (simp add: report_and_solve_def Let_def s3_def s2_def s1_def init_state_def)
    show "v_m (report_and_solve s3) = Some (3 * n)"
      by (simp add: report_and_solve_def Let_def s3_def s2_def s1_def init_state_def)
    show "v_max_q (report_and_solve s3) = Some mq"
      by (simp add: report_and_solve_def Let_def s3_def s2_def s1_def init_state_def)
    show "cone_f (v_k (report_and_solve s3)) = kf"
      unfolding vk by (simp add: k2_def k1_def k0_def)
    show "cone_l (v_k (report_and_solve s3)) = kl"
      unfolding vk by (simp add: k2_def k1_def k0_def)
    show "cone_qsize (v_k (report_and_solve s3)) = int (length bs)"
      unfolding vk by (simp add: k2_def k1_def)
    show "q_entries (v_k (report_and_solve s3)) = map Some bs"
      unfolding vk by (rule ent2)
    show "v_q_total (report_and_solve s3) = Some (sum_list bs)"
      using qt by (simp add: report_and_solve_def Let_def s3_def)
    show "0 \<le> r0 \<longrightarrow> (\<exists>buf. cone_q (v_k (report_and_solve s3)) = Some buf \<and> int (length buf) = r0)"
      unfolding vk using cq(1) by (simp add: k2_def k1_def)
    show "r0 < 0 \<longrightarrow> cone_q (v_k (report_and_solve s3)) = None"
      unfolding vk using cq(2) by (simp add: k2_def k1_def)
    show "calls (report_and_solve s3) =
      [GenRandomProbData (n * \<lceil>d_sqrt (d_of_int n)\<rceil>) \<lceil>d_sqrt (d_of_int n)\<rceil> (3 * n) n
         (v_k (report_and_solve s3)), Scs]"
      unfolding vk
      by (simp add: report_and_solve_def Let_def s3_def s2_def s1_def init_state_def k2_def)
  qed
qed

text \<open>What a run that ends with status 0 has gone through.\<close>

lemma main_body_Exit0:
  assumes "main_body lc n p_f p_l seed = Some (Inr (Exit 0 s))"
  shows "0 \<le> n \<and> \<not> 1 < d_add p_f p_l \<and>
         (\<exists>mq kf kl. max_q_of n = Inr mq \<and>
            to_idxint \<lfloor>d_mul (d_of_int (3 * n)) p_f\<rfloor> = Inr kf \<and>
            to_idxint \<lfloor>d_mul (d_of_int (3 * n)) p_l\<rfloor> = Inr kl)"
proof -
  have n: "0 \<le> n"
  proof (rule ccontr)
    assume "\<not> 0 \<le> n"
    then have "derive_sizes (init_state n p_f p_l seed) = Inl UndefinedConversion"
      by (intro derive_sizes_negative) simp
    then show False using assms by (simp add: main_body_def)
  qed
  obtain mq where mq: "max_q_of n = Inr mq" using max_q_of_nonneg [OF n] by blast
  define s1 where "s1 = (init_state n p_f p_l seed)
                  \<lparr>v_m := Some (3 * n), v_col_nnz := Some \<lceil>d_sqrt (d_of_int n)\<rceil>,
                   v_nnz := Some (n * \<lceil>d_sqrt (d_of_int n)\<rceil>), v_max_q := Some mq\<rparr>"
  have d: "derive_sizes (init_state n p_f p_l seed) = Inr s1"
    using derive_sizes_nonneg [OF n mq, of p_f p_l seed] by (simp add: s1_def)
  have p: "v_p_f s1 = p_f" "v_p_l s1 = p_l" "v_n s1 = n" by (simp_all add: s1_def init_state_def)
  have chk: "\<not> 1 < d_add p_f p_l"
  proof
    assume "1 < d_add p_f p_l"
    then show False using assms d p by (simp add: main_body_def)
  qed
  have a: "\<exists>s2. alloc_rows s1 = Inr s2"
    using assms d p chk by (cases "alloc_rows s1") (simp_all add: main_body_def)
  then have "\<exists>kf kl. to_idxint \<lfloor>d_mul (d_of_int (3 * n)) p_f\<rfloor> = Inr kf \<and>
            to_idxint \<lfloor>d_mul (d_of_int (3 * n)) p_l\<rfloor> = Inr kl"
    using p by (auto simp: alloc_rows_def Let_def split: sum.splits)
  then show ?thesis using n chk mq by blast
qed

subsection \<open>Fractions that pass the check\<close>

lemma d_add_le_one: "p_f + p_l \<le> 1 \<Longrightarrow> d_add p_f p_l \<le> 1"
  unfolding d_add_def by (rule double_round_le_one)

lemma parse_args_int:
  assumes "parse_args lc argv = Some (n, p_f, p_l, seed)"
  shows "- (2 ^ 31) \<le> n \<and> n < 2 ^ 31"
proof -
  have "- (2 ^ 31) \<le> sint w \<and> sint w < 2 ^ 31" for w :: "32 word"
    using sint_ge [of w] sint_lt [of w] by simp
  then show ?thesis using assms
    by (auto simp: parse_args_def Let_def split: if_splits)
qed

text \<open>
  For fractions that are not negative and whose rounded sum is not above 1, the two
  rounded products, floored, are not negative and do not add up to more than \<open>3n\<close>: the
  three roundings together change the sum by less than one row as long as \<open>3n\<close> is far
  below \<open>2\<^sup>5\<^sup>1\<close>, and an \<open>int\<close> is.
\<close>

lemma fractions_fit:
  assumes n: "0 < n" "n < 2 ^ 31"
    and pf: "0 \<le> p_f" and pl: "0 \<le> p_l"
    and chk: "d_add p_f p_l \<le> 1"
  shows "\<exists>kf kl.
           to_idxint \<lfloor>d_mul (d_of_int (3 * n)) p_f\<rfloor> = Inr kf \<and>
           to_idxint \<lfloor>d_mul (d_of_int (3 * n)) p_l\<rfloor> = Inr kl \<and>
           0 \<le> kf \<and> 0 \<le> kl \<and> kf + kl \<le> 3 * n"
proof -
  define N where "N = real_of_int (3 * n)"
  have N0: "0 \<le> N" and Nb: "N \<le> 3 * 2 ^ 31" using n by (simp_all add: N_def)
  have "\<bar>3 * n\<bar> \<le> 2 ^ 53" using n by simp
  then have dN: "d_of_int (3 * n) = N" by (simp add: d_of_int_small N_def)
  define a where "a = double_round (N * p_f)"
  define b where "b = double_round (N * p_l)"
  have a0: "0 \<le> a" unfolding a_def using N0 pf by (intro double_round_nonneg mult_nonneg_nonneg)
  have b0: "0 \<le> b" unfolding b_def using N0 pl by (intro double_round_nonneg mult_nonneg_nonneg)
  have au: "a \<le> N * p_f + N * p_f / 2 ^ 53"
    unfolding a_def using N0 pf by (intro double_round_upper mult_nonneg_nonneg)
  have bu: "b \<le> N * p_l + N * p_l / 2 ^ 53"
    unfolding b_def using N0 pl by (intro double_round_upper mult_nonneg_nonneg)
  define s where "s = p_f + p_l"
  have s0: "0 \<le> s" using pf pl by (simp add: s_def)
  have "s - s / 2 ^ 53 \<le> double_round s" using s0 by (rule double_round_lower)
  then have "s - s / 2 ^ 53 \<le> 1" using chk by (simp add: d_add_def s_def)
  then have sb: "s \<le> 1 + 2 / 2 ^ 53" by simp
  define t where "t = N * s"
  have t1: "N * p_f + N * p_l = t" by (simp add: t_def s_def algebra_simps)
  have "N * s \<le> N * (1 + 2 / 2 ^ 53)" using sb N0 by (rule mult_left_mono)
  then have t2: "t \<le> N + 2 * N / 2 ^ 53" by (simp add: t_def algebra_simps)
  have "a + b \<le> t + t / 2 ^ 53" using au bu t1 by (simp add: add_divide_distrib [symmetric])
  then have ab: "a + b < N + 1" using t2 Nb N0 by simp
  have "real_of_int \<lfloor>a\<rfloor> + real_of_int \<lfloor>b\<rfloor> < N + 1"
    using of_int_floor_le [of a] of_int_floor_le [of b] ab by linarith
  then have "real_of_int (\<lfloor>a\<rfloor> + \<lfloor>b\<rfloor>) < real_of_int (3 * n + 1)"
    by (simp add: N_def)
  then have "\<lfloor>a\<rfloor> + \<lfloor>b\<rfloor> < 3 * n + 1" by (simp only: of_int_less_iff)
  then have sum: "\<lfloor>a\<rfloor> + \<lfloor>b\<rfloor> \<le> 3 * n" by simp
  have ka: "0 \<le> \<lfloor>a\<rfloor>" and kb: "0 \<le> \<lfloor>b\<rfloor>" using a0 b0 by simp_all
  have n63: "3 * n < 9223372036854775808" using n by simp
  have "\<lfloor>a\<rfloor> < 9223372036854775808" and "\<lfloor>b\<rfloor> < 9223372036854775808"
    using sum ka kb n63 by linarith+
  then have "to_idxint \<lfloor>a\<rfloor> = Inr \<lfloor>a\<rfloor>" and "to_idxint \<lfloor>b\<rfloor> = Inr \<lfloor>b\<rfloor>"
    using ka kb by (simp_all add: to_idxint_def)
  then show ?thesis using sum ka kb by (simp add: d_mul_def dN a_def b_def)
qed

subsection \<open>Values of the sizes\<close>

lemma exp_double_le:
  assumes "exp z \<le> u" "u\<^sup>2 \<le> u'"
  shows "exp (2 * z) \<le> (u'::real)"
proof -
  have "exp (2 * z) = (exp z)\<^sup>2" by (rule exp_double)
  also have "\<dots> \<le> u\<^sup>2" using assms(1) by (intro power_mono) simp_all
  finally show ?thesis using assms(2) by simp
qed

lemma exp_double_ge:
  assumes "l \<le> exp z" "0 \<le> l" "l' \<le> l\<^sup>2"
  shows "(l'::real) \<le> exp (2 * z)"
proof -
  have "l\<^sup>2 \<le> (exp z)\<^sup>2" using assms(1,2) by (intro power_mono) simp_all
  also have "\<dots> = exp (2 * z)" by (rule exp_double [symmetric])
  finally show ?thesis using assms(3) by simp
qed

text \<open>
  \<open>max_q\<close> from bounds \<open>a \<le> ln (3n) \<le> b\<close>: the rounding of the logarithm and of the
  quotient moves the quotient by a factor between \<open>1 - 2\<^sup>-\<^sup>5\<^sup>2\<close> and \<open>1 + 2\<^sup>-\<^sup>5\<^sup>1\<close>.
\<close>

lemma max_q_value:
  assumes n: "0 < n" "n < 2 ^ 31"
    and a: "0 < a" "a \<le> ln (real_of_int (3 * n))"
    and b: "ln (real_of_int (3 * n)) \<le> b"
    and lo: "real_of_int z - 1 < real_of_int (3 * n) / b * (1 - 2 / 2 ^ 53)"
    and hi: "real_of_int (3 * n) / a * (1 + 4 / 2 ^ 53) \<le> real_of_int z"
  shows "max_q_of n = Inr z"
proof -
  define N where "N = real_of_int (3 * n)"
  have N0: "0 < N" using n by (simp add: N_def)
  have "\<bar>3 * n\<bar> \<le> 2 ^ 53" using n by simp
  then have dN: "d_of_int (3 * n) = N" by (simp add: d_of_int_small N_def)
  define L where "L = double_round (ln N)"
  have l0: "0 < ln N" using a by (simp add: N_def)
  have b0: "0 < b" using l0 b by (simp add: N_def)
  have "ln N - ln N / 2 ^ 53 \<le> L" unfolding L_def using l0 by (intro double_round_lower) simp
  then have Llo: "a * (1 - 1 / 2 ^ 53) \<le> L" using a(2) by (simp add: N_def algebra_simps)
  have "L \<le> ln N + ln N / 2 ^ 53" unfolding L_def using l0 by (intro double_round_upper) simp
  then have Lhi: "L \<le> b * (1 + 1 / 2 ^ 53)" using b by (simp add: N_def algebra_simps)
  have ap: "0 < a * (1 - 1 / 2 ^ 53)" using a(1) by (intro mult_pos_pos) simp_all
  have Lp: "0 < L" using ap Llo by linarith
  define q where "q = N / L"
  have q0: "0 < q" using N0 Lp by (simp add: q_def)
  have "N / L \<le> N / (a * (1 - 1 / 2 ^ 53))"
    using Llo N0 ap Lp by (intro divide_left_mono mult_pos_pos) simp_all
  also have "\<dots> = N / a * (9007199254740992 / 9007199254740991)"
    using a(1) by (simp add: field_simps)
  finally have qhi: "q \<le> N / a * (9007199254740992 / 9007199254740991)" by (simp add: q_def)
  have bp: "0 < b * (1 + 1 / 2 ^ 53)" using b0 by (intro mult_pos_pos) simp_all
  have "N / (b * (1 + 1 / 2 ^ 53)) \<le> N / L"
    using Lhi N0 bp Lp by (intro divide_left_mono mult_pos_pos) simp_all
  moreover have "N / (b * (1 + 1 / 2 ^ 53)) = N / b * (9007199254740992 / 9007199254740993)"
    using b0 by (simp add: field_simps)
  ultimately have qlo: "N / b * (9007199254740992 / 9007199254740993) \<le> q" by (simp add: q_def)
  define Q where "Q = double_round q"
  have Qlo: "q - q / 2 ^ 53 \<le> Q" unfolding Q_def using q0 by (intro double_round_lower) simp
  have Qhi: "Q \<le> q + q / 2 ^ 53" unfolding Q_def using q0 by (intro double_round_upper) simp
  have wa: "0 \<le> N / a" using N0 a(1) by simp
  have wb: "0 \<le> N / b" using N0 b0 by simp
  have "Q \<le> N / a * (1 + 4 / 2 ^ 53)" using Qhi qhi wa by simp
  then have up: "Q \<le> real_of_int z" using hi by (simp add: N_def)
  have "N / b * (1 - 2 / 2 ^ 53) \<le> Q" using Qlo qlo wb by simp
  then have dn: "real_of_int z - 1 < Q" using lo by (simp add: N_def)
  have "\<lceil>Q\<rceil> = z" using dn up by (rule ceiling_unique)
  then show ?thesis using n by (simp add: max_q_of_def dN d_div_def d_log_def Q_def q_def L_def)
qed

lemma exp_upper_30: "exp (67 / 20) \<le> (30::real)"
proof -
  have "exp (67 / 10240 :: real) \<le> 1 + (67 / 10240) + (67 / 10240)\<^sup>2" by (rule exp_bound) simp_all
  then have u0: "exp (67 / 10240 :: real) \<le> 39319757 / 39062500" by (simp add: power2_eq_square)
  have u1: "exp (67 / 5120 :: real) \<le> 10132149309 / 10000000000"
    using exp_double_le [OF u0, of "10132149309 / 10000000000"] by (simp add: power2_eq_square)
  have u2: "exp (67 / 2560 :: real) \<le> 5133022481 / 5000000000"
    using exp_double_le [OF u1, of "5133022481 / 5000000000"] by (simp add: power2_eq_square)
  have u3: "exp (67 / 1280 :: real) \<le> 10539167917 / 10000000000"
    using exp_double_le [OF u2, of "10539167917 / 10000000000"] by (simp add: power2_eq_square)
  have u4: "exp (67 / 640 :: real) \<le> 11107406039 / 10000000000"
    using exp_double_le [OF u3, of "11107406039 / 10000000000"] by (simp add: power2_eq_square)
  have u5: "exp (67 / 320 :: real) \<le> 3084361723 / 2500000000"
    using exp_double_le [OF u4, of "3084361723 / 2500000000"] by (simp add: power2_eq_square)
  have u6: "exp (67 / 160 :: real) \<le> 7610629791 / 5000000000"
    using exp_double_le [OF u5, of "7610629791 / 5000000000"] by (simp add: power2_eq_square)
  have u7: "exp (67 / 80 :: real) \<le> 23168674327 / 10000000000"
    using exp_double_le [OF u6, of "23168674327 / 10000000000"] by (simp add: power2_eq_square)
  have u8: "exp (67 / 40 :: real) \<le> 419365211 / 78125000"
    using exp_double_le [OF u7, of "419365211 / 78125000"] by (simp add: power2_eq_square)
  have u9: "exp (67 / 20 :: real) \<le> 57628157607 / 2000000000"
    using exp_double_le [OF u8, of "57628157607 / 2000000000"] by (simp add: power2_eq_square)
  show ?thesis using u9 by simp
qed

lemma exp_lower_30: "(30::real) \<le> exp (37 / 10)"
proof -
  have "1 + (37 / 80) + (37 / 80)\<^sup>2 / 2 \<le> exp (37 / 80 :: real)" by (rule exp_lower_Taylor_quadratic) simp
  then have l0: "20089 / 12800 \<le> exp (37 / 80 :: real)" by (simp add: power2_eq_square)
  have l1: "4926366223 / 2000000000 \<le> exp (37 / 40 :: real)"
    using exp_double_ge [OF l0, of "4926366223 / 2000000000"] by (simp add: power2_eq_square)
  have l2: "60672710407 / 10000000000 \<le> exp (37 / 20 :: real)"
    using exp_double_ge [OF l1, of "60672710407 / 10000000000"] by (simp add: power2_eq_square)
  have l3: "368117778813 / 10000000000 \<le> exp (37 / 10 :: real)"
    using exp_double_ge [OF l2, of "368117778813 / 10000000000"] by (simp add: power2_eq_square)
  show ?thesis using l3 by simp
qed

lemma exp_upper_300: "exp (567 / 100) \<le> (300::real)"
proof -
  have "exp (567 / 204800 :: real) \<le> 1 + (567 / 204800) + (567 / 204800)\<^sup>2" by (rule exp_bound) simp_all
  then have u0: "exp (567 / 204800 :: real) \<le> 2506940549 / 2500000000" by (simp add: power2_eq_square)
  have u1: "exp (567 / 102400 :: real) \<le> 5027800733 / 5000000000"
    using exp_double_le [OF u0, of "5027800733 / 5000000000"] by (simp add: power2_eq_square)
  have u2: "exp (567 / 51200 :: real) \<le> 2022302417 / 2000000000"
    using exp_double_le [OF u1, of "2022302417 / 2000000000"] by (simp add: power2_eq_square)
  have u3: "exp (567 / 25600 :: real) \<le> 2044853533 / 2000000000"
    using exp_double_le [OF u2, of "2044853533 / 2000000000"] by (simp add: power2_eq_square)
  have u4: "exp (567 / 12800 :: real) \<le> 10453564929 / 10000000000"
    using exp_double_le [OF u3, of "10453564929 / 10000000000"] by (simp add: power2_eq_square)
  have u5: "exp (567 / 6400 :: real) \<le> 10927701973 / 10000000000"
    using exp_double_le [OF u4, of "10927701973 / 10000000000"] by (simp add: power2_eq_square)
  have u6: "exp (567 / 3200 :: real) \<le> 5970733521 / 5000000000"
    using exp_double_le [OF u5, of "5970733521 / 5000000000"] by (simp add: power2_eq_square)
  have u7: "exp (567 / 1600 :: real) \<le> 1782482939 / 1250000000"
    using exp_double_le [OF u6, of "1782482939 / 1250000000"] by (simp add: power2_eq_square)
  have u8: "exp (567 / 800 :: real) \<le> 20334370739 / 10000000000"
    using exp_double_le [OF u7, of "20334370739 / 10000000000"] by (simp add: power2_eq_square)
  have u9: "exp (567 / 400 :: real) \<le> 5168582917 / 1250000000"
    using exp_double_le [OF u8, of "5168582917 / 1250000000"] by (simp add: power2_eq_square)
  have u10: "exp (567 / 200 :: real) \<le> 2671424937 / 156250000"
    using exp_double_le [OF u9, of "2671424937 / 156250000"] by (simp add: power2_eq_square)
  have u11: "exp (567 / 100 :: real) \<le> 2923114985073 / 10000000000"
    using exp_double_le [OF u10, of "2923114985073 / 10000000000"] by (simp add: power2_eq_square)
  show ?thesis using u11 by simp
qed

lemma exp_lower_300: "(300::real) \<le> exp (144 / 25)"
proof -
  have "1 + (9 / 100) + (9 / 100)\<^sup>2 / 2 \<le> exp (9 / 100 :: real)" by (rule exp_lower_Taylor_quadratic) simp
  then have l0: "21881 / 20000 \<le> exp (9 / 100 :: real)" by (simp add: power2_eq_square)
  have l1: "478778161 / 400000000 \<le> exp (9 / 50 :: real)"
    using exp_double_ge [OF l0, of "478778161 / 400000000"] by (simp add: power2_eq_square)
  have l2: "2865356593 / 2000000000 \<le> exp (9 / 25 :: real)"
    using exp_double_ge [OF l1, of "2865356593 / 2000000000"] by (simp add: power2_eq_square)
  have l3: "5131417753 / 2500000000 \<le> exp (18 / 25 :: real)"
    using exp_double_ge [OF l2, of "5131417753 / 2500000000"] by (simp add: power2_eq_square)
  have l4: "42130317049 / 10000000000 \<le> exp (36 / 25 :: real)"
    using exp_double_ge [OF l3, of "42130317049 / 10000000000"] by (simp add: power2_eq_square)
  have l5: "22187045183 / 1250000000 \<le> exp (72 / 25 :: real)"
    using exp_double_ge [OF l4, of "22187045183 / 1250000000"] by (simp add: power2_eq_square)
  have l6: "630099166659 / 2000000000 \<le> exp (144 / 25 :: real)"
    using exp_double_ge [OF l5, of "630099166659 / 2000000000"] by (simp add: power2_eq_square)
  show ?thesis using l6 by simp
qed

lemma max_q_of_10: "max_q_of 10 = Inr 9"
proof (rule max_q_value [where a = "67 / 20" and b = "37 / 10"])
  have "0 < (30::real)" by simp
  then have "67 / 20 \<le> ln (30::real)" using exp_upper_30 by (rule ln_ge_iff [THEN iffD2])
  then show "67 / 20 \<le> ln (real_of_int (3 * 10))" by simp
  have "ln (real_of_int (3 * 10)) \<le> ln (exp (37 / 10))"
    using exp_lower_30 by (subst ln_le_cancel_iff) simp_all
  then show "ln (real_of_int (3 * 10)) \<le> 37 / 10" by simp
qed simp_all

lemma max_q_of_100: "max_q_of 100 = Inr 53"
proof (rule max_q_value [where a = "567 / 100" and b = "144 / 25"])
  have "0 < (300::real)" by simp
  then have "567 / 100 \<le> ln (300::real)" using exp_upper_300 by (rule ln_ge_iff [THEN iffD2])
  then show "567 / 100 \<le> ln (real_of_int (3 * 100))" by simp
  have "ln (real_of_int (3 * 100)) \<le> ln (exp (144 / 25))"
    using exp_lower_300 by (subst ln_le_cancel_iff) simp_all
  then show "ln (real_of_int (3 * 100)) \<le> 144 / 25" by simp
qed simp_all

lemma col_nnz_of_0: "col_nnz_of 0 = Inr 0"
  by (simp add: col_nnz_of_def d_sqrt_def d_of_int_zero double_round_zero)



subsection \<open>Runs of main\<close>

lemma to_idxint_zero_product: "to_idxint \<lfloor>d_mul (d_of_int (3 * 0)) p\<rfloor> = Inr 0"
  by (simp add: d_mul_def d_of_int_zero double_round_zero to_idxint_def)

text \<open>Every run that ends with status 0, described by the partitioner of the spec.\<close>

lemma main_body_Exit0_facts:
  assumes "main_body lc n p_f p_l seed = Some (Inr (Exit 0 s))"
  shows "\<exists>mq kf kl.
           0 \<le> n \<and> \<not> 1 < d_add p_f p_l \<and>
           max_q_of n = Inr mq \<and> 0 \<le> mq \<and> (0 < n \<longrightarrow> 1 \<le> mq) \<and>
           to_idxint \<lfloor>d_mul (d_of_int (3 * n)) p_f\<rfloor> = Inr kf \<and>
           to_idxint \<lfloor>d_mul (d_of_int (3 * n)) p_l\<rfloor> = Inr kl \<and>
           (0 < 3 * n - kf - kl \<longrightarrow> 1 \<le> mq) \<and>
           v_n s = n \<and> v_m s = Some (3 * n) \<and> v_max_q s = Some mq \<and>
           cone_f (v_k s) = kf \<and> cone_l (v_k s) = kl \<and>
           cone_qsize (v_k s) =
             int (length (spec_partition (rand_seq lc seed) mq (3 * n - kf - kl) 0)) \<and>
           q_entries (v_k s) =
             map Some (spec_partition (rand_seq lc seed) mq (3 * n - kf - kl) 0) \<and>
           v_q_total s = Some (sum_list (spec_partition (rand_seq lc seed) mq (3 * n - kf - kl) 0)) \<and>
           (0 \<le> 3 * n - kf - kl \<longrightarrow>
              (\<exists>buf. cone_q (v_k s) = Some buf \<and> int (length buf) = 3 * n - kf - kl)) \<and>
           (3 * n - kf - kl < 0 \<longrightarrow> cone_q (v_k s) = None) \<and>
           calls s = [GenRandomProbData (n * \<lceil>d_sqrt (d_of_int n)\<rceil>) \<lceil>d_sqrt (d_of_int n)\<rceil>
                        (3 * n) n (v_k s), Scs]"
proof -
  from main_body_Exit0 [OF assms] obtain mq0 kf kl where
    n: "0 \<le> n" and chk: "\<not> 1 < d_add p_f p_l" and mq0: "max_q_of n = Inr mq0"
    and kf: "to_idxint \<lfloor>d_mul (d_of_int (3 * n)) p_f\<rfloor> = Inr kf"
    and kl: "to_idxint \<lfloor>d_mul (d_of_int (3 * n)) p_l\<rfloor> = Inr kl"
    by blast
  from max_q_of_nonneg [OF n] mq0 have m0: "0 \<le> mq0" and m1: "0 < n \<longrightarrow> 1 \<le> mq0" by auto
  have ok: "0 < 3 * n - kf - kl \<longrightarrow> 1 \<le> mq0"
  proof (cases "n = 0")
    case True
    then have "kf = 0" "kl = 0" using kf kl to_idxint_zero_product by simp_all
    then show ?thesis using True by simp
  next
    case False
    then show ?thesis using n m1 by simp
  qed
  from main_body_run [OF n chk mq0 kf kl m0 ok, of lc seed] obtain s' where
    run: "main_body lc n p_f p_l seed = Some (Inr (Exit 0 s'))"
    and facts: "v_n s' = n" "v_m s' = Some (3 * n)" "v_max_q s' = Some mq0"
      "cone_f (v_k s') = kf" "cone_l (v_k s') = kl"
      "cone_qsize (v_k s') =
             int (length (spec_partition (rand_seq lc seed) mq0 (3 * n - kf - kl) 0))"
      "q_entries (v_k s') =
             map Some (spec_partition (rand_seq lc seed) mq0 (3 * n - kf - kl) 0)"
      "v_q_total s' = Some (sum_list (spec_partition (rand_seq lc seed) mq0 (3 * n - kf - kl) 0))"
      "0 \<le> 3 * n - kf - kl \<longrightarrow>
              (\<exists>buf. cone_q (v_k s') = Some buf \<and> int (length buf) = 3 * n - kf - kl)"
      "3 * n - kf - kl < 0 \<longrightarrow> cone_q (v_k s') = None"
      "calls s' = [GenRandomProbData (n * \<lceil>d_sqrt (d_of_int n)\<rceil>) \<lceil>d_sqrt (d_of_int n)\<rceil>
                        (3 * n) n (v_k s'), Scs]"
    by blast
  have "s' = s" using run assms by simp
  then show ?thesis
    using n chk mq0 m0 m1 kf kl ok facts
    by (intro exI [of _ mq0] exI [of _ kf] exI [of _ kl]) simp
qed

text \<open>A positive \<open>n\<close> with fractions that are not negative and pass the check.\<close>

lemma main_body_valid:
  assumes n: "0 < n" "n < 2 ^ 31"
    and pf: "0 \<le> p_f" and pl: "0 \<le> p_l"
    and chk: "p_f + p_l \<le> 1 \<or> d_add p_f p_l \<le> 1"
  shows "\<exists>s mq kf kl.
           main_body lc n p_f p_l seed = Some (Inr (Exit 0 s)) \<and>
           max_q_of n = Inr mq \<and> 1 \<le> mq \<and>
           to_idxint \<lfloor>d_mul (d_of_int (3 * n)) p_f\<rfloor> = Inr kf \<and>
           to_idxint \<lfloor>d_mul (d_of_int (3 * n)) p_l\<rfloor> = Inr kl \<and>
           0 \<le> kf \<and> 0 \<le> kl \<and> kf + kl \<le> 3 * n"
proof -
  have c: "d_add p_f p_l \<le> 1" using chk d_add_le_one by blast
  from fractions_fit [OF n pf pl c] obtain kf kl where
    kf: "to_idxint \<lfloor>d_mul (d_of_int (3 * n)) p_f\<rfloor> = Inr kf"
    and kl: "to_idxint \<lfloor>d_mul (d_of_int (3 * n)) p_l\<rfloor> = Inr kl"
    and b: "0 \<le> kf" "0 \<le> kl" "kf + kl \<le> 3 * n" by blast
  define mq where "mq = \<lceil>d_div (d_of_int (3 * n)) (d_log (d_of_int (3 * n)))\<rceil>"
  have mq: "max_q_of n = Inr mq" "1 \<le> mq" using max_q_of_pos [OF n(1)] by (simp_all add: mq_def)
  have n0: "0 \<le> n" using n by simp
  have c': "\<not> 1 < d_add p_f p_l" using c by simp
  have m0: "0 \<le> mq" and ok: "0 < 3 * n - kf - kl \<longrightarrow> 1 \<le> mq" using mq(2) by simp_all
  from main_body_run [OF n0 c' mq(1) kf kl m0 ok, of lc seed] obtain s where
    "main_body lc n p_f p_l seed = Some (Inr (Exit 0 s))" by blast
  then show ?thesis using mq kf kl b by blast
qed

lemma main_parsed:
  "parse_args lc argv = Some (n, p_f, p_l, seed) \<Longrightarrow> main lc argv = main_body lc n p_f p_l seed"
  by (simp add: main_def)

subsection \<open>Some doubles and their products\<close>





lemma d_of_int_30: "d_of_int 30 = 30"
  using d_of_int_small [of 30] by simp

lemma d_of_int_300: "d_of_int 300 = 300"
  using d_of_int_small [of 300] by simp

lemma zero_rows_10_tenth: "\<lfloor>d_mul (d_of_int (3 * 10)) (double_round 0.1)\<rfloor> = 3"
  using double_round_binade_up [of 1 "30 * (3602879701896397 / 36028797018963968)"]
  by (simp add: d_mul_def d_of_int_30 double_round_tenth round_even_def)

lemma linear_rows_10_3_tenths: "\<lfloor>d_mul (d_of_int (3 * 10)) (double_round 0.3)\<rfloor> = 9"
  using double_round_binade_up [of 3 "30 * (5404319552844595 / 18014398509481984)"]
  by (simp add: d_mul_def d_of_int_30 double_round_3_tenths round_even_def)

lemma zero_rows_100_tenth: "\<lfloor>d_mul (d_of_int (3 * 100)) (double_round 0.1)\<rfloor> = 30"
  using zero_rows_100 by (simp add: d_mul_def d_of_int_300)

lemma linear_rows_100_3_tenths: "\<lfloor>d_mul (d_of_int (3 * 100)) (double_round 0.3)\<rfloor> = 90"
  using linear_rows_100 by (simp add: d_mul_def d_of_int_300)









lemma default_fractions_pass: "\<not> 1 < d_add (double_round 0.1) (double_round 0.3)"
proof -
  have "double_round 0.1 + double_round 0.3 \<le> 1"
    by (simp add: double_round_tenth double_round_3_tenths)
  then have "d_add (double_round 0.1) (double_round 0.3) \<le> 1" by (rule d_add_le_one)
  then show ?thesis by simp
qed

lemma default_fractions_nonneg: "0 \<le> double_round 0.1" "0 \<le> double_round 0.3"
  by (simp_all add: double_round_nonneg)


text \<open>
  A product on doubles whose floor is not that of the decimals: the double nearest to
  \<open>0.57\<close> lies below it, and \<open>floor(300 * 0.57)\<close> is 170, not 171.
\<close>

lemma double_round_57_hundredths:
  "double_round 0.57 = 5134103575202365 / 9007199254740992"
  using double_round_binade_down [of 1 "0.57"] by (simp add: round_even_def)

lemma rows_100_57_hundredths: "\<lfloor>d_mul (d_of_int (3 * 100)) (double_round 0.57)\<rfloor> = 170"
proof -
  define d where "d = double_round (300 * (5134103575202365 / 9007199254740992))"
  have "d = of_int (round_even (300 * (5134103575202365 / 9007199254740992) * 2 ^ 52 / 2 ^ 7)) * 2 ^ 7 / 2 ^ 52"
    unfolding d_def by (rule double_round_binade_up) simp_all
  then have "d * 35184372088832 = 6016527627190271" by (simp add: round_even_def)
  then have "real_of_int 170 \<le> d" "d < real_of_int 170 + 1" by simp_all
  then have "\<lfloor>d\<rfloor> = 170" by (rule floor_unique)
  moreover have "d_mul (d_of_int (3 * 100)) (double_round 0.57) = d"
    unfolding d_def d_mul_def double_round_57_hundredths by (simp add: d_of_int_300)
  ultimately show ?thesis by (simp only:)
qed

subsection \<open>A run without a block\<close>

lemma main_body_idle:
  assumes n: "0 \<le> n" and chk: "\<not> 1 < d_add p_f p_l"
    and c: "col_nnz_of n = Inr c" and mq: "max_q_of n = Inr mq"
    and kf: "to_idxint \<lfloor>d_mul (d_of_int (3 * n)) p_f\<rfloor> = Inr kf"
    and kl: "to_idxint \<lfloor>d_mul (d_of_int (3 * n)) p_l\<rfloor> = Inr kl"
    and r: "3 * n - kf - kl \<le> 0" "3 * n - kf - kl \<le> mq"
  shows "main_body lc n p_f p_l seed =
     Some (Inr (Exit 0
       \<lparr>v_n = n, v_p_f = p_f, v_p_l = p_l, v_seed = seed,
        v_m = Some (3 * n), v_col_nnz = Some c, v_nnz = Some (n * c), v_max_q = Some mq,
        v_q_num_rows = Some (3 * n - kf - kl), v_q_total = Some 0,
        v_k = calloc_Cone\<lparr>cone_f := kf, cone_l := kl,
                           cone_q := malloc_idxint (3 * n - kf - kl)\<rparr>,
        rand_calls = 0,
        stdout = [PrintSeed seed, PrintDims (3 * n) n c (n * c), PrintCone kf kl 0 0 [],
                  PrintCovered (kf + kl) (3 * n)],
        calls = [GenRandomProbData (n * c) c (3 * n) n
                   (calloc_Cone\<lparr>cone_f := kf, cone_l := kl,
                                 cone_q := malloc_idxint (3 * n - kf - kl)\<rparr>), Scs]\<rparr>))"
proof -
  define r0 where "r0 = 3 * n - kf - kl"
  have d: "derive_sizes (init_state n p_f p_l seed) =
           Inr ((init_state n p_f p_l seed)
                  \<lparr>v_m := Some (3 * n), v_col_nnz := Some c,
                   v_nnz := Some (n * c), v_max_q := Some mq\<rparr>)"
    using c mq by (simp add: derive_sizes_def init_state_def Let_def)
  have w: "while_loop rnd mq (r0, k, i) = Some (Inr (r0, k, i))" for rnd k i
    using r(2) by (subst while_loop.simps) (simp add: r0_def)
  have t: "trailing_block (r0, k, i) = Inr (r0, k, i)" for k i
    using r(1) by (simp add: trailing_block_def r0_def)
  have q: "cone_qsize k = 0 \<Longrightarrow> q_entries k = []" for k
    by (simp add: q_entries_def split: option.splits)
  show ?thesis
    unfolding r0_def [symmetric]
    using chk kf kl
    by (simp add: main_body_def d,
        simp add: init_state_def alloc_rows_def Let_def r0_def [symmetric]
        partition_rows_def w t q_total_of_def q report_and_solve_def calloc_Cone_def)
qed

subsection \<open>Command lines of the examples\<close>

lemma parse_100:
  "parse_args example_libc [''prog'', ''100''] =
     Some (100, double_round 0.1, double_round 0.3, 1700000000)"
  by (simp add: parse_args_def example_libc_def)

lemma parse_0:
  "parse_args example_libc [''prog'', ''0''] =
     Some (0, double_round 0.1, double_round 0.3, 1700000000)"
  by (simp add: parse_args_def example_libc_def)



lemma parse_neg_7_5:
  "parse_args example_libc [''prog'', ''-1'', ''0.7'', ''0.5''] =
     Some (- 1, double_round 0.7, double_round 0.5, 1700000000)"
  by (simp add: parse_args_def example_libc_def)




lemma main_body_rejects:
  assumes chk: "1 < d_add p_f p_l" and n: "0 \<le> n"
    and c: "col_nnz_of n = Inr c" and mq: "max_q_of n = Inr mq"
  shows "main_body lc n p_f p_l seed =
     Some (Inr (Exit 1
       \<lparr>v_n = n, v_p_f = p_f, v_p_l = p_l, v_seed = seed,
        v_m = Some (3 * n), v_col_nnz = Some c, v_nnz = Some (n * c), v_max_q = Some mq,
        v_q_num_rows = None, v_q_total = None,
        v_k = calloc_Cone, rand_calls = 0,
        stdout = [PrintSeed seed, PrintFractionError], calls = []\<rparr>))"
proof -
  have d: "derive_sizes (init_state n p_f p_l seed) =
           Inr ((init_state n p_f p_l seed)
                  \<lparr>v_m := Some (3 * n), v_col_nnz := Some c,
                   v_nnz := Some (n * c), v_max_q := Some mq\<rparr>)"
    using c mq by (simp add: derive_sizes_def init_state_def Let_def)
  show ?thesis using chk by (simp add: main_body_def d, simp add: init_state_def)
qed

lemma main_body_negative:
  assumes "n < 0"
  shows "main_body lc n p_f p_l seed = Some (Inl UndefinedConversion)"
  using derive_sizes_negative [OF assms, of p_f p_l seed] by (simp add: main_body_def)

lemma col_nnz_of_nonneg: "0 \<le> n \<Longrightarrow> \<exists>c. col_nnz_of n = Inr c"
  by (simp add: col_nnz_of_def)

lemma main_body_not_Usage: "main_body lc n p_f p_l seed \<noteq> Some (Inr Usage)"
  by (simp add: main_body_def split: sum.splits option.splits)

lemma rows_ok:
  assumes n: "0 \<le> n" and mq: "max_q_of n = Inr mq"
    and kf: "to_idxint \<lfloor>d_mul (d_of_int (3 * n)) p_f\<rfloor> = Inr kf"
    and kl: "to_idxint \<lfloor>d_mul (d_of_int (3 * n)) p_l\<rfloor> = Inr kl"
  shows "0 \<le> mq" and "0 < 3 * n - kf - kl \<longrightarrow> 1 \<le> mq"
proof -
  from max_q_of_nonneg [OF n] mq have m0: "0 \<le> mq" and m1: "0 < n \<longrightarrow> 1 \<le> mq" by auto
  show "0 \<le> mq" by (rule m0)
  show "0 < 3 * n - kf - kl \<longrightarrow> 1 \<le> mq"
  proof (cases "n = 0")
    case True
    then have "kf = 0" "kl = 0" using kf kl to_idxint_zero_product by simp_all
    then show ?thesis using True by simp
  next
    case False
    then show ?thesis using n m1 by simp
  qed
qed

lemma to_idxint_cases:
  "to_idxint z = Inl UndefinedConversion \<or> to_idxint z = Inr z"
  by (simp add: to_idxint_def)

text \<open>The value of \<open>q_num_rows\<close> after line 94, read off the two phases before the loop.\<close>

lemma rows_at_alloc:
  assumes n: "0 \<le> n" and mq: "max_q_of n = Inr mq"
    and kf: "to_idxint \<lfloor>d_mul (d_of_int (3 * n)) p_f\<rfloor> = Inr kf"
    and kl: "to_idxint \<lfloor>d_mul (d_of_int (3 * n)) p_l\<rfloor> = Inr kl"
  shows "(case derive_sizes (init_state n p_f p_l seed) of
            Inl e \<Rightarrow> None
          | Inr s1 \<Rightarrow> (case alloc_rows s1 of Inl e \<Rightarrow> None | Inr s2 \<Rightarrow> v_q_num_rows s2)) =
         Some (3 * n - kf - kl)"
  using kf kl
  by (simp add: derive_sizes_nonneg [OF n mq], simp add: alloc_rows_def init_state_def Let_def)

text \<open>
  A run of lines 71--152 ends in one of three ways: at an undefined conversion, with the
  error message and status 1, or with status 0.  No store into \<open>k->q\<close> fails and no
  remainder is taken by zero.
\<close>

lemma main_body_outcomes:
  "main_body lc n p_f p_l seed = Some (Inl UndefinedConversion) \<or>
   (\<exists>s. main_body lc n p_f p_l seed = Some (Inr (Exit 1 s))) \<or>
   (\<exists>s. main_body lc n p_f p_l seed = Some (Inr (Exit 0 s)))"
proof (cases "0 \<le> n")
  case False
  then show ?thesis using main_body_negative [of n lc p_f p_l seed] by simp
next
  case n: True
  obtain c where c: "col_nnz_of n = Inr c" using col_nnz_of_nonneg [OF n] by blast
  obtain mq where mq: "max_q_of n = Inr mq" using max_q_of_nonneg [OF n] by blast
  show ?thesis
  proof (cases "1 < d_add p_f p_l")
    case True
    then show ?thesis using main_body_rejects [OF True n c mq, of lc seed] by simp
  next
    case chk: False
    have d: "derive_sizes (init_state n p_f p_l seed) =
           Inr ((init_state n p_f p_l seed)
                  \<lparr>v_m := Some (3 * n), v_col_nnz := Some c,
                   v_nnz := Some (n * c), v_max_q := Some mq\<rparr>)"
      using c mq by (simp add: derive_sizes_def init_state_def Let_def)
    show ?thesis
    proof (cases "to_idxint \<lfloor>d_mul (d_of_int (3 * n)) p_f\<rfloor>")
      case (Inl e)
      then have "to_idxint \<lfloor>d_mul (d_of_int (3 * n)) p_f\<rfloor> = Inl UndefinedConversion"
        using to_idxint_cases [of "\<lfloor>d_mul (d_of_int (3 * n)) p_f\<rfloor>"] by simp
      then have "main_body lc n p_f p_l seed = Some (Inl UndefinedConversion)"
        using chk by (simp add: main_body_def d, simp add: alloc_rows_def init_state_def)
      then show ?thesis by simp
    next
      case kf: (Inr kf)
      show ?thesis
      proof (cases "to_idxint \<lfloor>d_mul (d_of_int (3 * n)) p_l\<rfloor>")
        case (Inl e)
        then have "to_idxint \<lfloor>d_mul (d_of_int (3 * n)) p_l\<rfloor> = Inl UndefinedConversion"
          using to_idxint_cases [of "\<lfloor>d_mul (d_of_int (3 * n)) p_l\<rfloor>"] by simp
        then have "main_body lc n p_f p_l seed = Some (Inl UndefinedConversion)"
          using chk kf by (simp add: main_body_def d, simp add: alloc_rows_def init_state_def)
        then show ?thesis by simp
      next
        case kl: (Inr kl)
        from main_body_run [OF n chk mq kf kl rows_ok [OF n mq kf kl], of lc seed]
        show ?thesis by blast
      qed
    qed
  qed
qed

lemma main_body_rand_seq:
  assumes "rand_seq lc1 seed = rand_seq lc2 seed"
  shows "main_body lc1 n p_f p_l seed = main_body lc2 n p_f p_l seed"
proof (cases "derive_sizes (init_state n p_f p_l seed)")
  case (Inl e)
  then show ?thesis by (simp add: main_body_def)
next
  case (Inr s)
  have vs: "v_seed s = seed"
    using Inr by (auto simp: derive_sizes_def init_state_def Let_def split: sum.splits)
  have a: "v_seed s1 = seed" if "alloc_rows s = Inr s1" for s1
    using that vs by (auto simp: alloc_rows_def Let_def split: sum.splits)
  have p: "partition_rows lc1 s1 = partition_rows lc2 s1" if "alloc_rows s = Inr s1" for s1
    using a [OF that] assms by (simp add: partition_rows_def)
  show ?thesis
  proof (cases "alloc_rows s")
    case (Inl e)
    then show ?thesis using Inr by (simp add: main_body_def)
  next
    case s1: (Inr s1)
    show ?thesis using Inr s1 p [OF s1] by (simp add: main_body_def)
  qed
qed

lemma draws_7_5_6: "spec_partition (rand_seq example_libc 0) 9 18 0 = [7, 5, 6]"
proof -
  define rnd where "rnd = rand_seq example_libc 0"
  have r0: "rnd 0 = 1103527590" and r1: "rnd (Suc 0) = 59559187"
    by (simp_all add: rnd_def example_libc_def)
  have a: "spec_partition rnd 9 6 (Suc (Suc 0)) = [6]"
    by (subst spec_partition.simps) simp
  have b: "spec_partition rnd 9 11 (Suc 0) = [5, 6]"
    by (subst spec_partition.simps) (simp add: r1 a)
  have "spec_partition rnd 9 18 0 = [7, 5, 6]"
    by (subst spec_partition.simps) (simp add: r0 b)
  then show ?thesis unfolding rnd_def .
qed

lemma parse_10_seed_0:
  "parse_args lc [''prog'', ''10'', ''0.1'', ''0.3'', ''0''] =
     Some (sint (atoi lc ''10''), atof lc ''0.1'', atof lc ''0.3'', sint (atoi lc ''0''))"
  by (simp add: parse_args_def)

lemma ceiling_300_ln_300: "\<lceil>(300::real) / ln 300\<rceil> = 53"
proof -
  have p: "0 < (300::real)" by simp
  have a: "567 / 100 \<le> ln (300::real)" using p exp_upper_300 by (rule ln_ge_iff [THEN iffD2])
  have "ln (300::real) \<le> ln (exp (144 / 25))"
    using exp_lower_300 by (subst ln_le_cancel_iff) simp_all
  then have b: "ln (300::real) \<le> 144 / 25" by simp
  have l: "0 < ln (300::real)" using a by linarith
  have "(300::real) / ln 300 \<le> 300 / (567 / 100)"
    using a by (intro divide_left_mono) simp_all
  then have hi: "(300::real) / ln 300 \<le> 53" by simp
  have "(300::real) / (144 / 25) \<le> 300 / ln 300"
    using b l by (intro divide_left_mono) simp_all
  then have lo: "52 < (300::real) / ln 300" by simp
  show ?thesis using lo hi by (intro ceiling_unique) simp_all
qed

section \<open>Properties of the program\<close>




text \<open>
  C2, block bound and positivity.  Whatever the arguments, when a run ends with status 0
  every one of the \<open>k->qsize\<close> entries of \<open>k->q\<close>, the trailing one included, lies between
  1 and \<open>max_q\<close>; and for a positive \<open>n\<close> and fractions that are not negative and whose
  sum is not above 1 the run does end with status 0.
\<close>

theorem block_bounds:
  assumes "parse_args lc argv = Some (n, p_f, p_l, seed)"
  shows "(\<forall>s. main lc argv = Some (Inr (Exit 0 s)) \<longrightarrow>
            (\<exists>blocks max_q.
               v_max_q s = Some max_q \<and>
               q_entries (v_k s) = map Some blocks \<and>
               cone_qsize (v_k s) = int (length blocks) \<and>
               (\<forall>b\<in>set blocks. 1 \<le> b \<and> b \<le> max_q))) \<and>
         (0 < n \<and> 0 \<le> p_f \<and> 0 \<le> p_l \<and> (p_f + p_l \<le> 1 \<or> d_add p_f p_l \<le> 1) \<longrightarrow>
            (\<exists>s. main lc argv = Some (Inr (Exit 0 s))))"
proof (intro conjI allI impI)
  fix s assume "main lc argv = Some (Inr (Exit 0 s))"
  then have run: "main_body lc n p_f p_l seed = Some (Inr (Exit 0 s))"
    using main_parsed [OF assms] by simp
  from main_body_Exit0_facts [OF run] obtain mq kf kl where
    ok: "0 < 3 * n - kf - kl \<longrightarrow> 1 \<le> mq"
    and f: "v_max_q s = Some mq"
      "cone_qsize (v_k s) =
             int (length (spec_partition (rand_seq lc seed) mq (3 * n - kf - kl) 0))"
      "q_entries (v_k s) =
             map Some (spec_partition (rand_seq lc seed) mq (3 * n - kf - kl) 0)"
    by blast
  define blocks where "blocks = spec_partition (rand_seq lc seed) mq (3 * n - kf - kl) 0"
  have "\<forall>b\<in>set blocks. 1 \<le> b \<and> b \<le> mq"
  proof (cases "1 \<le> mq")
    case True
    then show ?thesis unfolding blocks_def by (rule spec_partition_bounds)
  next
    case False
    then have "3 * n - kf - kl \<le> 0" using ok by linarith
    then have "blocks = []" unfolding blocks_def by (rule spec_partition_nonpos)
    then show ?thesis by simp
  qed
  then show "\<exists>blocks max_q.
               v_max_q s = Some max_q \<and>
               q_entries (v_k s) = map Some blocks \<and>
               cone_qsize (v_k s) = int (length blocks) \<and>
               (\<forall>b\<in>set blocks. 1 \<le> b \<and> b \<le> max_q)"
    using f unfolding blocks_def [symmetric] by blast
next
  assume v: "0 < n \<and> 0 \<le> p_f \<and> 0 \<le> p_l \<and> (p_f + p_l \<le> 1 \<or> d_add p_f p_l \<le> 1)"
  have nb: "n < 2 ^ 31" using parse_args_int [OF assms] by simp
  from main_body_valid [of n p_f p_l lc seed] v nb
  obtain s where "main_body lc n p_f p_l seed = Some (Inr (Exit 0 s))" by blast
  then show "\<exists>s. main lc argv = Some (Inr (Exit 0 s))" using main_parsed [OF assms] by simp
qed

text \<open>
  The statement for the command line \<open>prog 100\<close>.
\<close>

theorem block_bounds_witness:
  "parse_args example_libc [''prog'', ''100''] =
     Some (100, double_round 0.1, double_round 0.3, 1700000000) \<and>
   (0::int) < 100 \<and> 0 \<le> double_round 0.1 \<and> 0 \<le> double_round 0.3 \<and>
   d_add (double_round 0.1) (double_round 0.3) \<le> 1 \<and>
   (\<exists>s blocks max_q.
      main example_libc [''prog'', ''100''] = Some (Inr (Exit 0 s)) \<and>
      v_max_q s = Some max_q \<and>
      q_entries (v_k s) = map Some blocks \<and>
      cone_qsize (v_k s) = int (length blocks) \<and>
      (\<forall>b\<in>set blocks. 1 \<le> b \<and> b \<le> max_q))"
proof -
  have n: "(0::int) < 100" by simp
  have c: "d_add (double_round 0.1) (double_round 0.3) \<le> 1"
    using default_fractions_pass by simp
  note b = block_bounds [OF parse_100]
  from b n default_fractions_nonneg c obtain s where
    s: "main example_libc [''prog'', ''100''] = Some (Inr (Exit 0 s))" by blast
  with b have "\<exists>blocks max_q.
      v_max_q s = Some max_q \<and>
      q_entries (v_k s) = map Some blocks \<and>
      cone_qsize (v_k s) = int (length blocks) \<and>
      (\<forall>b\<in>set blocks. 1 \<le> b \<and> b \<le> max_q)" by blast
  then show ?thesis using s parse_100 n default_fractions_nonneg c by blast
qed







text \<open>
  C5, validation of a non-positive \<open>n\<close>, does not hold: the command line \<open>prog 0\<close> is not
  answered with the usage text.  The run derives \<open>m = 0\<close>, \<open>max_q = 0\<close> and an empty cone
  structure, reports them, calls the builder and the solver and returns \<open>0\<close>.
\<close>

theorem nonpositive_n_counterexample:
  "main example_libc [''prog'', ''0''] =
     Some (Inr (Exit 0
       \<lparr>v_n = 0, v_p_f = double_round 0.1, v_p_l = double_round 0.3,
        v_seed = 1700000000,
        v_m = Some 0, v_col_nnz = Some 0, v_nnz = Some 0, v_max_q = Some 0,
        v_q_num_rows = Some 0, v_q_total = Some 0,
        v_k = calloc_Cone\<lparr>cone_q := Some []\<rparr>, rand_calls = 0,
        stdout = [PrintSeed 1700000000, PrintDims 0 0 0 0, PrintCone 0 0 0 0 [],
                  PrintCovered 0 0],
        calls = [GenRandomProbData 0 0 0 0 (calloc_Cone\<lparr>cone_q := Some []\<rparr>), Scs]\<rparr>))"
proof -
  have mq: "max_q_of 0 = Inr 0" by (simp add: max_q_of_def)
  show ?thesis
    using main_body_idle [OF _ default_fractions_pass col_nnz_of_0 mq
            to_idxint_zero_product to_idxint_zero_product, of example_libc 1700000000]
    by (simp add: main_parsed [OF parse_0] malloc_idxint_def calloc_Cone_def)
qed

text \<open>
  C5 as the code has it.  The usage text is printed exactly when the number of arguments
  is not 2, 4 or 5, whatever the value given for \<open>n\<close>.  A negative \<open>n\<close> is taken to line
  80, where the conversion of the NaN of \<open>sqrt\<close> to an integer has no defined behaviour.
  With \<open>n = 0\<close> and fractions that pass the check the run derives \<open>m = 0\<close>, \<open>col_nnz = 0\<close>,
  \<open>nnz = 0\<close>, \<open>max_q = 0\<close> and a cone structure without rows, hands them to the builder,
  calls the solver and returns 0.
\<close>

theorem usage_only_by_argc:
  "((main lc argv = Some (Inr Usage)) =
      (length argv \<noteq> 2 \<and> length argv \<noteq> 4 \<and> length argv \<noteq> 5)) \<and>
   (parse_args lc argv = Some (n, p_f, p_l, seed) \<and> n < 0 \<longrightarrow>
      main lc argv = Some (Inl UndefinedConversion)) \<and>
   (parse_args lc argv = Some (n, p_f, p_l, seed) \<and> n = 0 \<and> \<not> 1 < d_add p_f p_l \<longrightarrow>
      (\<exists>s. main lc argv = Some (Inr (Exit 0 s)) \<and>
           v_m s = Some 0 \<and> v_col_nnz s = Some 0 \<and> v_nnz s = Some 0 \<and>
           v_max_q s = Some 0 \<and>
           cone_f (v_k s) = 0 \<and> cone_l (v_k s) = 0 \<and> cone_qsize (v_k s) = 0 \<and>
           q_entries (v_k s) = [] \<and>
           calls s = [GenRandomProbData 0 0 0 0 (v_k s), Scs]))"
proof (intro conjI impI)
  show "(main lc argv = Some (Inr Usage)) =
      (length argv \<noteq> 2 \<and> length argv \<noteq> 4 \<and> length argv \<noteq> 5)"
  proof (cases "parse_args lc argv")
    case None
    then show ?thesis by (auto simp: main_def parse_args_def Let_def split: if_splits)
  next
    case (Some a)
    obtain n p_f p_l seed where a: "a = (n, p_f, p_l, seed)" by (cases a)
    have "main lc argv = main_body lc n p_f p_l seed" using Some a by (simp add: main_def)
    then have "main lc argv \<noteq> Some (Inr Usage)" using main_body_not_Usage by simp
    moreover have "length argv = 2 \<or> length argv = 4 \<or> length argv = 5"
      using Some by (auto simp: parse_args_def Let_def split: if_splits)
    ultimately show ?thesis by auto
  qed
next
  assume "parse_args lc argv = Some (n, p_f, p_l, seed) \<and> n < 0"
  then show "main lc argv = Some (Inl UndefinedConversion)"
    using main_body_negative [of n lc p_f p_l seed] main_parsed [of lc argv n p_f p_l seed]
    by simp
next
  assume a: "parse_args lc argv = Some (n, p_f, p_l, seed) \<and> n = 0 \<and> \<not> 1 < d_add p_f p_l"
  have mq: "max_q_of 0 = Inr 0" by (simp add: max_q_of_def)
  have chk: "\<not> 1 < d_add p_f p_l" using a by simp
  have m: "main lc argv = main_body lc 0 p_f p_l seed"
    using a main_parsed [of lc argv n p_f p_l seed] by simp
  show "\<exists>s. main lc argv = Some (Inr (Exit 0 s)) \<and>
           v_m s = Some 0 \<and> v_col_nnz s = Some 0 \<and> v_nnz s = Some 0 \<and>
           v_max_q s = Some 0 \<and>
           cone_f (v_k s) = 0 \<and> cone_l (v_k s) = 0 \<and> cone_qsize (v_k s) = 0 \<and>
           q_entries (v_k s) = [] \<and>
           calls s = [GenRandomProbData 0 0 0 0 (v_k s), Scs]"
    using main_body_idle [OF _ chk col_nnz_of_0 mq
            to_idxint_zero_product to_idxint_zero_product, of lc seed]
    by (simp add: m malloc_idxint_def calloc_Cone_def q_entries_def)
qed

text \<open>
  The statement for the command lines \<open>prog 0\<close>, \<open>prog 0 0.5\<close> and \<open>prog -1 0.7 0.5\<close>.
\<close>

theorem usage_only_by_argc_witness:
  "main example_libc [''prog'', ''0''] \<noteq> Some (Inr Usage) \<and>
   main example_libc [''prog'', ''0'', ''0.5''] = Some (Inr Usage) \<and>
   parse_args example_libc [''prog'', ''-1'', ''0.7'', ''0.5''] =
     Some (- 1, double_round 0.7, double_round 0.5, 1700000000) \<and> (- 1::int) < 0 \<and>
   main example_libc [''prog'', ''-1'', ''0.7'', ''0.5''] = Some (Inl UndefinedConversion) \<and>
   parse_args example_libc [''prog'', ''0''] =
     Some (0, double_round 0.1, double_round 0.3, 1700000000) \<and>
   \<not> 1 < d_add (double_round 0.1) (double_round 0.3) \<and>
   (\<exists>s. main example_libc [''prog'', ''0''] = Some (Inr (Exit 0 s)) \<and>
        v_m s = Some 0 \<and> v_max_q s = Some 0 \<and> q_entries (v_k s) = [] \<and>
        calls s = [GenRandomProbData 0 0 0 0 (v_k s), Scs])"
proof -
  note a = usage_only_by_argc [of example_libc "[''prog'', ''0'']" 0 "double_round 0.1"
             "double_round 0.3" 1700000000]
  note b = usage_only_by_argc [of example_libc "[''prog'', ''0'', ''0.5'']"]
  note c = usage_only_by_argc [of example_libc "[''prog'', ''-1'', ''0.7'', ''0.5'']" "- 1"
             "double_round 0.7" "double_round 0.5" 1700000000]
  have 1: "main example_libc [''prog'', ''0''] \<noteq> Some (Inr Usage)" using a by simp
  have 2: "main example_libc [''prog'', ''0'', ''0.5''] = Some (Inr Usage)" using b by simp
  have 3: "main example_libc [''prog'', ''-1'', ''0.7'', ''0.5''] =
             Some (Inl UndefinedConversion)"
    using c parse_neg_7_5 by simp
  have 4: "\<exists>s. main example_libc [''prog'', ''0''] = Some (Inr (Exit 0 s)) \<and>
        v_m s = Some 0 \<and> v_max_q s = Some 0 \<and> q_entries (v_k s) = [] \<and>
        calls s = [GenRandomProbData 0 0 0 0 (v_k s), Scs]"
    using a parse_0 default_fractions_pass by blast
  show ?thesis using 1 2 3 4 parse_neg_7_5 parse_0 default_fractions_pass by simp
qed

text \<open>
  C6, a guard on the logarithm, does not hold: for \<open>n = 0\<close>, where \<open>rows_total = 0\<close> does not
  exceed 1, lines 79--83 run through without any test and leave \<open>max_q = 0\<close>, the
  value that the quotient by the logarithm of zero converts to.
\<close>

theorem degenerate_size_counterexample:
  "derive_sizes (init_state 0 0.1 0.3 1) =
     Inr \<lparr>v_n = 0, v_p_f = 0.1, v_p_l = 0.3, v_seed = 1,
          v_m = Some 0, v_col_nnz = Some 0, v_nnz = Some 0, v_max_q = Some 0,
          v_q_num_rows = None, v_q_total = None,
          v_k = calloc_Cone, rand_calls = 0, stdout = [PrintSeed 1], calls = []\<rparr>"
  by (simp add: derive_sizes_def col_nnz_of_0 max_q_of_def init_state_def)

text \<open>
  C6 as the code has it: \<open>max_q\<close> is computed without a guard.  For a positive \<open>n\<close> none is
  needed, \<open>3n\<close> exceeds 1, its logarithm is positive and \<open>max_q\<close> is at least 1; for \<open>n = 0\<close>
  the result is \<open>0\<close>; for a negative \<open>n\<close> the conversion is undefined.
\<close>

theorem max_q_unguarded:
  "(0 < n \<longrightarrow> 1 < 3 * n \<and> 0 < ln (real_of_int (3 * n)) \<and>
       (\<exists>max_q. max_q_of n = Inr max_q \<and> 1 \<le> max_q)) \<and>
   max_q_of 0 = Inr 0 \<and>
   (n < 0 \<longrightarrow> max_q_of n = Inl UndefinedConversion)"
proof (intro conjI impI)
  assume n: "0 < n"
  show "1 < 3 * n" using n by simp
  show "0 < ln (real_of_int (3 * n))" using n by (intro ln_gt_zero) simp
  show "\<exists>max_q. max_q_of n = Inr max_q \<and> 1 \<le> max_q" using max_q_of_pos [OF n] by blast
next
  show "max_q_of 0 = Inr 0" by (simp add: max_q_of_def)
next
  assume "n < 0"
  then show "max_q_of n = Inl UndefinedConversion" by (simp add: max_q_of_def)
qed

text \<open>
  The statement at \<open>n = 100\<close> and \<open>n = -1\<close>.
\<close>

theorem max_q_unguarded_witness:
  "(0::int) < 100 \<and> (1::int) < 3 * 100 \<and> 0 < ln (real_of_int (3 * 100)) \<and>
   (\<exists>max_q. max_q_of 100 = Inr max_q \<and> 1 \<le> max_q) \<and>
   max_q_of 0 = Inr 0 \<and>
   (-1::int) < 0 \<and> max_q_of (-1) = Inl UndefinedConversion"
  using max_q_unguarded [of 100] max_q_unguarded [of "-1"] by simp

text \<open>
  C7, determinism under a fixed seed.  Two runs that parse the same \<open>n\<close>, \<open>p_f\<close>, \<open>p_l\<close> and
  \<open>seed\<close> from their command lines, in two environments whose generators yield the same
  sequence after \<open>srand(seed)\<close> and which may differ in everything else (the clock, \<open>atoi\<close>,
  \<open>atof\<close>, the generator on other seeds), have the same result.  In a run that ends with
  status 0 the entries of \<open>k->q\<close> are the blocks that the partitioner of the spec cuts
  from \<open>q_num_rows\<close> with the draws \<open>rand_seq seed 0\<close>, \<open>rand_seq seed 1\<close>, ... taken in this
  order, one per block; and valid arguments give such a run.
\<close>

theorem determinism:
  assumes "rand_seq lc1 seed = rand_seq lc2 seed"
    and "parse_args lc1 argv1 = Some (n, p_f, p_l, seed)"
    and "parse_args lc2 argv2 = Some (n, p_f, p_l, seed)"
  shows "main lc1 argv1 = main lc2 argv2 \<and>
         (\<forall>s. main lc1 argv1 = Some (Inr (Exit 0 s)) \<longrightarrow>
            (\<exists>max_q kf kl.
               max_q_of n = Inr max_q \<and>
               to_idxint \<lfloor>d_mul (d_of_int (3 * n)) p_f\<rfloor> = Inr kf \<and>
               to_idxint \<lfloor>d_mul (d_of_int (3 * n)) p_l\<rfloor> = Inr kl \<and>
               cone_qsize (v_k s) =
                 int (length (spec_partition (rand_seq lc1 seed) max_q (3 * n - kf - kl) 0)) \<and>
               q_entries (v_k s) =
                 map Some (spec_partition (rand_seq lc1 seed) max_q (3 * n - kf - kl) 0))) \<and>
         (0 < n \<and> 0 \<le> p_f \<and> 0 \<le> p_l \<and> (p_f + p_l \<le> 1 \<or> d_add p_f p_l \<le> 1) \<longrightarrow>
            (\<exists>s. main lc1 argv1 = Some (Inr (Exit 0 s))))"
proof (intro conjI allI impI)
  show "main lc1 argv1 = main lc2 argv2"
    using main_parsed [OF assms(2)] main_parsed [OF assms(3)] main_body_rand_seq [OF assms(1)]
    by simp
next
  fix s assume "main lc1 argv1 = Some (Inr (Exit 0 s))"
  then have run: "main_body lc1 n p_f p_l seed = Some (Inr (Exit 0 s))"
    using main_parsed [OF assms(2)] by simp
  from main_body_Exit0_facts [OF run]
  show "\<exists>max_q kf kl.
               max_q_of n = Inr max_q \<and>
               to_idxint \<lfloor>d_mul (d_of_int (3 * n)) p_f\<rfloor> = Inr kf \<and>
               to_idxint \<lfloor>d_mul (d_of_int (3 * n)) p_l\<rfloor> = Inr kl \<and>
               cone_qsize (v_k s) =
                 int (length (spec_partition (rand_seq lc1 seed) max_q (3 * n - kf - kl) 0)) \<and>
               q_entries (v_k s) =
                 map Some (spec_partition (rand_seq lc1 seed) max_q (3 * n - kf - kl) 0)"
    by blast
next
  assume v: "0 < n \<and> 0 \<le> p_f \<and> 0 \<le> p_l \<and> (p_f + p_l \<le> 1 \<or> d_add p_f p_l \<le> 1)"
  have nb: "n < 2 ^ 31" using parse_args_int [OF assms(2)] by simp
  from main_body_valid [of n p_f p_l lc1 seed] v nb
  obtain s where "main_body lc1 n p_f p_l seed = Some (Inr (Exit 0 s))" by blast
  then show "\<exists>s. main lc1 argv1 = Some (Inr (Exit 0 s))"
    using main_parsed [OF assms(2)] by simp
qed

text \<open>
  The statement for \<open>prog 10 0.1 0.3 0\<close> run at two different times: \<open>k->f = 3\<close>, \<open>k->l = 9\<close>,
  \<open>max_q = 9\<close>, and of the 18 remaining rows the draws 1103527590 and 59559187 cut
  \<open>1103527590 % 9 + 1 = 7\<close> and \<open>59559187 % 9 + 1 = 5\<close>, leaving the trailing block 6.
\<close>

theorem determinism_witness:
  "rand_seq example_libc 0 = rand_seq (example_libc\<lparr>time_now := 1800000000\<rparr>) 0 \<and>
   parse_args example_libc [''prog'', ''10'', ''0.1'', ''0.3'', ''0''] =
     Some (10, double_round 0.1, double_round 0.3, 0) \<and>
   parse_args (example_libc\<lparr>time_now := 1800000000\<rparr>) [''prog'', ''10'', ''0.1'', ''0.3'', ''0''] =
     Some (10, double_round 0.1, double_round 0.3, 0) \<and>
   (0::int) < 10 \<and> 0 \<le> double_round 0.1 \<and> 0 \<le> double_round 0.3 \<and>
   d_add (double_round 0.1) (double_round 0.3) \<le> 1 \<and>
   (\<exists>s. main example_libc [''prog'', ''10'', ''0.1'', ''0.3'', ''0''] = Some (Inr (Exit 0 s)) \<and>
        main (example_libc\<lparr>time_now := 1800000000\<rparr>) [''prog'', ''10'', ''0.1'', ''0.3'', ''0''] =
          Some (Inr (Exit 0 s)) \<and>
        cone_qsize (v_k s) = 3 \<and>
        q_entries (v_k s) = [Some 7, Some 5, Some 6])"
proof -
  let ?lc2 = "example_libc\<lparr>time_now := 1800000000\<rparr>"
  let ?argv = "[''prog'', ''10'', ''0.1'', ''0.3'', ''0'']"
  have r: "rand_seq example_libc 0 = rand_seq ?lc2 0" by simp
  have p1: "parse_args example_libc ?argv = Some (10, double_round 0.1, double_round 0.3, 0)"
    unfolding parse_10_seed_0 by (simp add: example_libc_def)
  have p2: "parse_args ?lc2 ?argv = Some (10, double_round 0.1, double_round 0.3, 0)"
    unfolding parse_10_seed_0 by (simp add: example_libc_def)
  have n: "(0::int) < 10" by simp
  have c: "d_add (double_round 0.1) (double_round 0.3) \<le> 1"
    using default_fractions_pass by simp
  note d = determinism [OF r p1 p2]
  from d n default_fractions_nonneg c obtain s where
    s: "main example_libc ?argv = Some (Inr (Exit 0 s))" by blast
  from d s obtain max_q kf kl where
    f: "max_q_of 10 = Inr max_q"
      "to_idxint \<lfloor>d_mul (d_of_int (3 * 10)) (double_round 0.1)\<rfloor> = Inr kf"
      "to_idxint \<lfloor>d_mul (d_of_int (3 * 10)) (double_round 0.3)\<rfloor> = Inr kl"
      "cone_qsize (v_k s) =
         int (length (spec_partition (rand_seq example_libc 0) max_q (3 * 10 - kf - kl) 0))"
      "q_entries (v_k s) =
         map Some (spec_partition (rand_seq example_libc 0) max_q (3 * 10 - kf - kl) 0)"
    by blast
  have "max_q = 9" using f(1) by (simp add: max_q_of_10)
  moreover have "kf = 3" using f(2) unfolding zero_rows_10_tenth by (simp add: to_idxint_def)
  moreover have "kl = 9" using f(3) unfolding linear_rows_10_3_tenths by (simp add: to_idxint_def)
  ultimately have "cone_qsize (v_k s) = 3" "q_entries (v_k s) = [Some 7, Some 5, Some 6]"
    using f(4,5) by (simp_all add: draws_7_5_6)
  moreover have "main ?lc2 ?argv = Some (Inr (Exit 0 s))" using d s by simp
  ultimately show ?thesis using r p1 p2 n default_fractions_nonneg c s by blast
qed

text \<open>
  C8, termination of the partition loop.  From every state the \<open>while\<close> loop returns, every
  iteration that stores its draw lowers \<open>q_num_rows\<close> by at least 1, and with it every run
  of \<open>main\<close> returns.
\<close>

theorem loop_terminates:
  "(\<exists>res. while_loop rnd max_q st = Some res) \<and>
   (\<forall>st'. loop_body rnd max_q st = Inr st' \<longrightarrow> fst st' \<le> fst st - 1) \<and>
   (\<exists>res. main lc argv = Some res)"
proof (intro conjI allI impI)
  show "\<exists>res. while_loop rnd max_q st = Some res" by (rule while_loop_total)
next
  fix st' assume b: "loop_body rnd max_q st = Inr st'"
  obtain r k c where st: "st = (r, k, c)" by (cases st)
  obtain r' k' c' where st': "st' = (r', k', c')" by (cases st')
  show "fst st' \<le> fst st - 1" using loop_body_decreases [of rnd max_q r k c r' k' c'] b st st' by simp
next
  have "\<exists>res. main_body lc n p_f p_l seed = Some res" for n p_f p_l seed
    using main_body_outcomes [of lc n p_f p_l seed] by blast
  then show "\<exists>res. main lc argv = Some res"
    by (auto simp: main_def split: option.splits)
qed

text \<open>
  The statement for a buffer of five cells, \<open>q_num_rows = 5\<close>, \<open>max_q = 3\<close> and a generator
  that returns 4: the iteration stores \<open>4 % 3 + 1 = 2\<close> and leaves \<open>q_num_rows = 3\<close>.
\<close>

theorem loop_terminates_witness:
  "(\<exists>res. while_loop (\<lambda>i. 4) 3 (5, calloc_Cone\<lparr>cone_q := Some (replicate 5 None)\<rparr>, 0) = Some res) \<and>
   loop_body (\<lambda>i. 4) 3 (5, calloc_Cone\<lparr>cone_q := Some (replicate 5 None)\<rparr>, 0) =
     Inr (3, calloc_Cone\<lparr>cone_q := Some [Some 2, None, None, None, None], cone_qsize := 1\<rparr>, 1) \<and>
   (3::int) \<le> 5 - 1 \<and>
   (\<exists>res. main example_libc [''prog'', ''100''] = Some res)"
proof -
  have b: "loop_body (\<lambda>i. 4) 3 (5, calloc_Cone\<lparr>cone_q := Some (replicate 5 None)\<rparr>, 0) =
     Inr (3, calloc_Cone\<lparr>cone_q := Some [Some 2, None, None, None, None], cone_qsize := 1\<rparr>, 1)"
    by (simp add: loop_body_def push_q_def calloc_Cone_def signed_modulo_int_def
        eval_nat_numeral)
  show ?thesis
    using b loop_terminates [of "\<lambda>i. 4" 3
        "(5, calloc_Cone\<lparr>cone_q := Some (replicate 5 None)\<rparr>, 0)" example_libc "[''prog'', ''100'']"]
    by simp
qed

text \<open>
  C9, the worked example.  For \<open>n = 100\<close> and the fractions \<open>0.1\<close> and \<open>0.3\<close>, which the program
  holds as the doubles nearest to them, whatever the seed and the generator: \<open>m = 300\<close>,
  \<open>k->f = 30\<close>, \<open>k->l = 90\<close>, \<open>q_num_rows = 180\<close> after line 94, \<open>max_q = 53\<close>, which is also
  the ceiling of the exact quotient \<open>300 / ln 300\<close>, a buffer of 180 cells, and entries of
  \<open>k->q\<close> between 1 and 53 that sum to 180.
\<close>

theorem worked_example:
  "\<exists>s blocks buf.
     main_body lc 100 (double_round 0.1) (double_round 0.3) seed = Some (Inr (Exit 0 s)) \<and>
     v_m s = Some 300 \<and> cone_f (v_k s) = 30 \<and> cone_l (v_k s) = 90 \<and>
     (case derive_sizes (init_state 100 (double_round 0.1) (double_round 0.3) seed) of
        Inl e \<Rightarrow> None
      | Inr s1 \<Rightarrow> (case alloc_rows s1 of Inl e \<Rightarrow> None | Inr s2 \<Rightarrow> v_q_num_rows s2)) =
       Some 180 \<and>
     \<lceil>(300::real) / ln 300\<rceil> = 53 \<and> max_q_of 100 = Inr 53 \<and> v_max_q s = Some 53 \<and>
     cone_q (v_k s) = Some buf \<and> length buf = 180 \<and>
     q_entries (v_k s) = map Some blocks \<and>
     (\<forall>b\<in>set blocks. 1 \<le> b \<and> b \<le> 53) \<and>
     sum_list blocks = 180"
proof -
  have n: "(0::int) \<le> 100" by simp
  have kf: "to_idxint \<lfloor>d_mul (d_of_int (3 * 100)) (double_round 0.1)\<rfloor> = Inr 30"
    unfolding zero_rows_100_tenth by (simp add: to_idxint_def)
  have kl: "to_idxint \<lfloor>d_mul (d_of_int (3 * 100)) (double_round 0.3)\<rfloor> = Inr 90"
    unfolding linear_rows_100_3_tenths by (simp add: to_idxint_def)
  define blocks where "blocks = spec_partition (rand_seq lc seed) 53 180 0"
  from main_body_run [OF n default_fractions_pass max_q_of_100 kf kl, of lc seed]
  obtain s buf where
    run: "main_body lc 100 (double_round 0.1) (double_round 0.3) seed = Some (Inr (Exit 0 s))"
    and f: "v_m s = Some 300" "v_max_q s = Some 53" "cone_f (v_k s) = 30" "cone_l (v_k s) = 90"
      "q_entries (v_k s) = map Some blocks"
      "cone_q (v_k s) = Some buf" "int (length buf) = 180"
    unfolding blocks_def by auto
  have r: "(case derive_sizes (init_state 100 (double_round 0.1) (double_round 0.3) seed) of
        Inl e \<Rightarrow> None
      | Inr s1 \<Rightarrow> (case alloc_rows s1 of Inl e \<Rightarrow> None | Inr s2 \<Rightarrow> v_q_num_rows s2)) =
       Some 180"
    using rows_at_alloc [OF n max_q_of_100 kf kl, of seed] by simp
  have bnd: "\<forall>b\<in>set blocks. 1 \<le> b \<and> b \<le> 53"
    unfolding blocks_def by (rule spec_partition_bounds) simp
  have sum: "sum_list blocks = 180"
    unfolding blocks_def by (rule spec_partition_sum) simp_all
  have len: "length buf = 180" using f(7) by simp
  show ?thesis
    using run f(1-6) r ceiling_300_ln_300 max_q_of_100 len bnd sum
    by (intro exI [of _ s] exI [of _ blocks] exI [of _ buf]) simp
qed

text \<open>
  The statement for the example library and the command line \<open>prog 100\<close>, whose fractions
  are the defaults \<open>0.1\<close> and \<open>0.3\<close>.
\<close>

theorem worked_example_witness:
  "\<exists>s blocks buf.
     main example_libc [''prog'', ''100''] = Some (Inr (Exit 0 s)) \<and>
     main_body example_libc 100 (double_round 0.1) (double_round 0.3) 1700000000 =
       Some (Inr (Exit 0 s)) \<and>
     v_m s = Some 300 \<and> cone_f (v_k s) = 30 \<and> cone_l (v_k s) = 90 \<and>
     (case derive_sizes (init_state 100 (double_round 0.1) (double_round 0.3) 1700000000) of
        Inl e \<Rightarrow> None
      | Inr s1 \<Rightarrow> (case alloc_rows s1 of Inl e \<Rightarrow> None | Inr s2 \<Rightarrow> v_q_num_rows s2)) =
       Some 180 \<and>
     \<lceil>(300::real) / ln 300\<rceil> = 53 \<and> max_q_of 100 = Inr 53 \<and> v_max_q s = Some 53 \<and>
     cone_q (v_k s) = Some buf \<and> length buf = 180 \<and>
     q_entries (v_k s) = map Some blocks \<and>
     (\<forall>b\<in>set blocks. 1 \<le> b \<and> b \<le> 53) \<and>
     sum_list blocks = 180"
  using worked_example [of example_libc 1700000000] main_parsed [OF parse_100]
  by simp




end
